theory Spec2Isabelle
  imports Complex_Main "HOL-Library.Multiset"
begin

section \<open>Data model\<close>

text \<open>
  JavaScript numbers that carry times, durations and pixel coordinates are modelled
  as \<open>real\<close>: every comparison and arithmetic operation of the source is kept, rounding
  is not. Pitches are \<open>int\<close>, counters are \<open>nat\<close>.

  A note id is the string \<^verbatim>\<open>`${trackIndex}:${idx}`\<close> in \<^verbatim>\<open>script.js\<close>; the pair
  \<open>(trackIndex, idx)\<close> stands for it (the separator makes the string determine the pair).
  The field \<open>nid\<close> is the source's \<open>id\<close>.
\<close>

type_synonym note_id = "nat \<times> nat"

record Note =
  nid :: note_id
  midi :: int
  time :: real
  duration :: real
  velocity :: real
  name :: string
  trackIndex :: nat

text \<open>What the MIDI parser hands to \<^verbatim>\<open>loadMIDI\<close>: \<^verbatim>\<open>midi.tracks[t].notes[i]\<close> and
  \<^verbatim>\<open>midi.duration\<close>.\<close>

record raw_note =
  raw_midi :: int
  raw_time :: real
  raw_duration :: real
  raw_velocity :: real
  raw_name :: string

record midi_file =
  tracks :: "raw_note list list"
  midi_duration :: real

record pianoKey =
  key_midi :: int
  isWhite :: bool
  rect_left :: real
  rect_width :: real

record fingerPoint =
  px :: real
  py :: real

text \<open>One call of \<^verbatim>\<open>synth.triggerAttackRelease(Tone.Frequency(midi), duration, _, velocity)\<close>.\<close>

record sound =
  snd_midi :: int
  snd_duration :: real
  snd_velocity :: real

text \<open>
  The globals of \<^verbatim>\<open>script.js\<close> (the \<^verbatim>\<open>state\<close> object of \<^verbatim>\<open>js/state.js\<close>). The global
  \<^verbatim>\<open>duration\<close> is \<open>songDuration\<close>. The last six fields are what the program reads from
  or does to its collaborators: the canvas geometry, the position of \<^verbatim>\<open>Tone.Transport\<close>,
  the callbacks scheduled on it (transport time and sound), the sounds triggered at once,
  and the number of countdowns started by \<^verbatim>\<open>startPlayback\<close> that have not finished.
\<close>

record state =
  "notes" :: "Note list"
  melodyNotes :: "Note list"
  harmonyNotes :: "Note list"
  isPlaying :: bool
  gatedPause :: bool
  currentTime :: real
  songDuration :: real
  currentSpeed :: real
  currentSong :: string
  pianoKeys :: "pianoKey list"
  allFingerPoints :: "fingerPoint list"
  playedMelodyIds :: "note_id set"
  touchedMelodyCount :: nat
  finalScore :: real
  canvasHeight :: real
  containerLeft :: real
  transportSeconds :: real
  transportStarted :: bool
  scheduled :: "(real \<times> sound) list"
  triggered :: "sound list"
  countdowns :: nat

section \<open>Score load (\<^verbatim>\<open>loadMIDI\<close> of \<^verbatim>\<open>script.js\<close>)\<close>

definition epsilon :: real where
  "epsilon = 0.05"

text \<open>\<^verbatim>\<open>track.notes.forEach((note, idx) => notes.push({...}))\<close>\<close>

definition mkNote :: "real \<Rightarrow> nat \<Rightarrow> nat \<times> raw_note \<Rightarrow> Note" where
  "mkNote TEMPO_MULTIPLIER ti p =
     \<lparr> nid = (ti, fst p),
       midi = raw_midi (snd p),
       time = raw_time (snd p) * TEMPO_MULTIPLIER,
       duration = raw_duration (snd p) * TEMPO_MULTIPLIER,
       velocity = raw_velocity (snd p),
       name = raw_name (snd p),
       trackIndex = ti \<rparr>"

definition trackNotes :: "real \<Rightarrow> nat \<times> raw_note list \<Rightarrow> Note list" where
  "trackNotes TEMPO_MULTIPLIER p = map (mkNote TEMPO_MULTIPLIER (fst p)) (enumerate 0 (snd p))"

definition extractNotes :: "midi_file \<Rightarrow> real \<Rightarrow> Note list" where
  "extractNotes m TEMPO_MULTIPLIER =
     concat (map (trackNotes TEMPO_MULTIPLIER) (enumerate 0 (tracks m)))"

text \<open>\<^verbatim>\<open>Math.abs(notes[j].time - groupStart) <= epsilon\<close>\<close>

definition inGroup :: "real \<Rightarrow> Note \<Rightarrow> bool" where
  "inGroup groupStart n \<longleftrightarrow> \<bar>time n - groupStart\<bar> \<le> epsilon"

text \<open>
  The outer \<^verbatim>\<open>while (i < notes.length)\<close>: the argument is \<^verbatim>\<open>notes.slice(i)\<close>, the inner
  loop starts at \<^verbatim>\<open>j = i\<close> and collects the longest prefix that passes the test, and the
  outer loop continues at \<^verbatim>\<open>i = j\<close>.
\<close>

function splitGroups :: "Note list \<Rightarrow> Note list list" where
  "splitGroups [] = []"
| "splitGroups (n # ns) =
     takeWhile (inGroup (time n)) (n # ns) # splitGroups (dropWhile (inGroup (time n)) (n # ns))"
  by pat_completeness auto
termination
  by (relation "measure length") (auto simp: inGroup_def epsilon_def less_Suc_eq_le length_dropWhile_le)

text \<open>\<^verbatim>\<open>group.reduce((acc, n) => (n.midi > acc.midi ? n : acc), group[0])\<close>\<close>

definition higher :: "Note \<Rightarrow> Note \<Rightarrow> Note" where
  "higher acc n = (if midi n > midi acc then n else acc)"

definition melodyOf :: "Note list \<Rightarrow> Note" where
  "melodyOf grp = foldl higher (hd grp) grp"

text \<open>\<^verbatim>\<open>group.forEach(n => { if (n.id !== melody.id) harmonyNotes.push(n); })\<close>\<close>

definition harmonyOf :: "Note list \<Rightarrow> Note list" where
  "harmonyOf grp = filter (\<lambda>n. nid n \<noteq> nid (melodyOf grp)) grp"

text \<open>
  The server's files are a partial map from file name to parsed MIDI; a failed
  \<^verbatim>\<open>fetch\<close> or parse is \<open>None\<close> and leaves every global as it was (the exception leaves
  \<^verbatim>\<open>loadMIDI\<close> before the first assignment to \<^verbatim>\<open>notes\<close>).

  The speed selector offers 0.5, 0.75 and 1. At speed 0 the source's multiplier \<^verbatim>\<open>1 / 0\<close>
  is \<^verbatim>\<open>Infinity\<close>: every start time is \<^verbatim>\<open>Infinity\<close> or \<^verbatim>\<open>NaN\<close>, no note passes the test
  of the inner loop and the outer loop never advances (and with no note at all the
  duration is no real number). The load gives no score then, which is \<open>None\<close> here as
  well; HOL's \<open>1 / 0 = 0\<close> is never used.
\<close>

definition loadMIDI :: "(string \<rightharpoonup> midi_file) \<Rightarrow> string \<Rightarrow> state \<Rightarrow> state option" where
  "loadMIDI fs filename st =
     (case fs filename of
        None \<Rightarrow> None
      | Some m \<Rightarrow>
          if currentSpeed st = 0 then None
          else
            let TEMPO_MULTIPLIER = 1 / currentSpeed st;
                sorted_notes = sort_key time (extractNotes m TEMPO_MULTIPLIER);
                groups = splitGroups sorted_notes
            in Some (st\<lparr> notes := sorted_notes,
                         melodyNotes := map melodyOf groups,
                         harmonyNotes := concat (map harmonyOf groups),
                         songDuration := midi_duration m * TEMPO_MULTIPLIER \<rparr>))"

section \<open>The split of \<^verbatim>\<open>js/midi.js\<close> (\<^verbatim>\<open>separateMelodyHarmony\<close>)\<close>

text \<open>
  The loop state is \<^verbatim>\<open>(groups, currentGroup, currentGroupTime)\<close>; one call of the
  \<^verbatim>\<open>forEach\<close> callback is \<open>groupStep\<close>.
\<close>

definition timeWindow :: real where
  "timeWindow = 0.05"

definition groupStep :: "Note list list \<times> Note list \<times> real \<Rightarrow> Note \<Rightarrow> Note list list \<times> Note list \<times> real" where
  "groupStep s note =
     (case s of (groups, currentGroup, currentGroupTime) \<Rightarrow>
        if currentGroupTime < 0 \<or> \<bar>time note - currentGroupTime\<bar> < timeWindow
        then (groups, currentGroup @ [note], time note)
        else ((if length currentGroup > 0 then groups @ [currentGroup] else groups), [note], time note))"

definition windowGroups :: "Note list \<Rightarrow> Note list list" where
  "windowGroups ns =
     (case foldl groupStep ([], [], -1) ns of (groups, currentGroup, currentGroupTime) \<Rightarrow>
        if length currentGroup > 0 then groups @ [currentGroup] else groups)"

text \<open>\<^verbatim>\<open>group.sort((a, b) => b.midi - a.midi)\<close>: a stable sort, highest pitch first.\<close>

definition sortByPitch :: "Note list \<Rightarrow> Note list" where
  "sortByPitch grp = sort_key (\<lambda>n. - midi n) grp"

definition windowMelody :: "Note list \<Rightarrow> Note" where
  "windowMelody grp = (if length grp = 1 then hd grp else hd (sortByPitch grp))"

definition windowHarmony :: "Note list \<Rightarrow> Note list" where
  "windowHarmony grp = (if length grp = 1 then [] else tl (sortByPitch grp))"

definition separateMelodyHarmony :: "Note list \<Rightarrow> Note list \<times> Note list" where
  "separateMelodyHarmony ns =
     (let groups = windowGroups ns
      in (map windowMelody groups, concat (map windowHarmony groups)))"

section \<open>Hit detector (\<^verbatim>\<open>getTouchedNote\<close>)\<close>

definition WHITE_KEY_WIDTH :: real where
  "WHITE_KEY_WIDTH = 30"

definition BLACK_KEY_WIDTH :: real where
  "BLACK_KEY_WIDTH = 20"

definition hitZoneTolerance :: real where
  "hitZoneTolerance = 50"

definition lookAhead :: real where
  "lookAhead = 3"

definition lookBehind :: real where
  "lookBehind = 0.5"

definition hitZoneY :: "state \<Rightarrow> real" where
  "hitZoneY st = canvasHeight st * 0.6"

definition pixelsPerSecond :: "state \<Rightarrow> real" where
  "pixelsPerSecond st = (canvasHeight st - 140) * 0.5"

definition pianoTopY :: "state \<Rightarrow> real" where
  "pianoTopY st = canvasHeight st - 140"

definition timeDiff :: "state \<Rightarrow> Note \<Rightarrow> real" where
  "timeDiff st n = time n - currentTime st"

definition noteY :: "state \<Rightarrow> Note \<Rightarrow> real" where
  "noteY st n = pianoTopY st - (timeDiff st n * pixelsPerSecond st)"

definition noteHeight :: "state \<Rightarrow> Note \<Rightarrow> real" where
  "noteHeight st n = max 10 (duration n * pixelsPerSecond st)"

definition noteBottom :: "state \<Rightarrow> Note \<Rightarrow> real" where
  "noteBottom st n = noteY st n"

definition noteTop :: "state \<Rightarrow> Note \<Rightarrow> real" where
  "noteTop st n = noteY st n - noteHeight st n"

definition keyX :: "state \<Rightarrow> pianoKey \<Rightarrow> real" where
  "keyX st keyData = rect_left keyData - containerLeft st + rect_width keyData / 2"

definition noteWidth :: "pianoKey \<Rightarrow> real" where
  "noteWidth keyData = (if isWhite keyData then WHITE_KEY_WIDTH - 4 else BLACK_KEY_WIDTH - 2)"

text \<open>
  The body of the inner \<^verbatim>\<open>for (let note of melodyNotes)\<close>: true exactly when the
  iteration reaches \<^verbatim>\<open>return note\<close>; every \<^verbatim>\<open>continue\<close> and every failed test is false.
\<close>

definition touches :: "state \<Rightarrow> fingerPoint \<Rightarrow> Note \<Rightarrow> bool" where
  "touches st p n \<longleftrightarrow>
     nid n \<notin> playedMelodyIds st \<and>
     timeDiff st n > - lookBehind \<and> timeDiff st n < lookAhead \<and>
     (case find (\<lambda>k. key_midi k = midi n) (pianoKeys st) of
        None \<Rightarrow> False
      | Some keyData \<Rightarrow>
          noteBottom st n \<ge> hitZoneY st - hitZoneTolerance \<and>
          noteTop st n \<le> hitZoneY st + hitZoneTolerance \<and>
          px p \<ge> keyX st keyData - noteWidth keyData / 2 \<and>
          px p \<le> keyX st keyData + noteWidth keyData / 2 \<and>
          py p \<ge> noteTop st n \<and> py p \<le> noteBottom st n)"

text \<open>The outer \<^verbatim>\<open>for (let fingerPoint of allFingerPoints)\<close>.\<close>

fun scanPoints :: "state \<Rightarrow> fingerPoint list \<Rightarrow> Note option" where
  "scanPoints st [] = None"
| "scanPoints st (p # ps) =
     (case find (touches st p) (melodyNotes st) of
        Some n \<Rightarrow> Some n
      | None \<Rightarrow> scanPoints st ps)"

definition getTouchedNote :: "state \<Rightarrow> Note option" where
  "getTouchedNote st =
     (if length (allFingerPoints st) = 0 \<or> length (pianoKeys st) = 0 then None
      else scanPoints st (allFingerPoints st))"

section \<open>Playback (\<^verbatim>\<open>script.js\<close>)\<close>

definition soundOf :: "Note \<Rightarrow> sound" where
  "soundOf n = \<lparr> snd_midi = midi n, snd_duration = duration n, snd_velocity = velocity n \<rparr>"

definition playMelodyNote :: "state \<Rightarrow> Note \<Rightarrow> state" where
  "playMelodyNote st n =
     st\<lparr> triggered := triggered st @ [soundOf n],
         playedMelodyIds := insert (nid n) (playedMelodyIds st),
         touchedMelodyCount := touchedMelodyCount st + 1 \<rparr>"

text \<open>
  \<^verbatim>\<open>startPlayback\<close> only starts the countdown interval; the interval's last callback
  (\<^verbatim>\<open>countdown < 0\<close>) is \<open>countdownDone\<close>, a later event.
\<close>

definition startPlayback :: "state \<Rightarrow> state" where
  "startPlayback st = st\<lparr> countdowns := countdowns st + 1 \<rparr>"

text \<open>\<^verbatim>\<open>Tone.Transport.cancel(); harmonyNotes.forEach(...schedule...); Tone.Transport.start()\<close>\<close>

definition scheduleNotes :: "state \<Rightarrow> state" where
  "scheduleNotes st =
     st\<lparr> scheduled := map (\<lambda>n. (time n, soundOf n))
                          (filter (\<lambda>n. time n \<ge> currentTime st) (harmonyNotes st)),
         transportStarted := True \<rparr>"

definition countdownDone :: "state \<Rightarrow> state" where
  "countdownDone st =
     (if countdowns st = 0 then st
      else scheduleNotes (st\<lparr> countdowns := countdowns st - 1,
                               isPlaying := True,
                               gatedPause := False,
                               transportSeconds := currentTime st \<rparr>))"

text \<open>
  \<^verbatim>\<open>isPlaying = false; currentTime = Tone.Transport.seconds; Tone.Transport.stop();
  Tone.Transport.cancel()\<close>. Stopping the transport of Tone.js puts its position back to 0.
\<close>

definition pausePlayback :: "state \<Rightarrow> state" where
  "pausePlayback st =
     st\<lparr> isPlaying := False,
         currentTime := transportSeconds st,
         transportStarted := False,
         transportSeconds := 0,
         scheduled := [] \<rparr>"

definition togglePlayback :: "state \<Rightarrow> state" where
  "togglePlayback st =
     (if \<not> isPlaying st \<and> \<not> gatedPause st then startPlayback st else pausePlayback st)"

text \<open>The callback of \<^verbatim>\<open>melodyNotes.forEach\<close> in \<^verbatim>\<open>seekTo\<close>.\<close>

definition markSkipped :: "state \<Rightarrow> Note \<Rightarrow> state" where
  "markSkipped st n =
     (if time n < currentTime st - 0.1
      then st\<lparr> playedMelodyIds := insert (nid n) (playedMelodyIds st) \<rparr>
      else st)"

text \<open>The restart \<^verbatim>\<open>setTimeout(() => startPlayback(), 50)\<close> is started at once.\<close>

definition seekTo :: "real \<Rightarrow> state \<Rightarrow> state" where
  "seekTo t st =
     (let st1 = st\<lparr> currentTime := max 0 (min t (songDuration st)) \<rparr>;
          st2 = st1\<lparr> transportSeconds := currentTime st1 \<rparr>;
          st3 = st2\<lparr> playedMelodyIds := {}, touchedMelodyCount := 0 \<rparr>;
          st4 = foldl markSkipped st3 (melodyNotes st3)
      in if isPlaying st4 then startPlayback (pausePlayback st4) else st4)"

definition simultaneousNotes :: "state \<Rightarrow> Note \<Rightarrow> Note list" where
  "simultaneousNotes st touchedNote =
     filter (\<lambda>n. nid n \<notin> playedMelodyIds st \<and> \<bar>time n - time touchedNote\<bar> \<le> epsilon)
            (melodyNotes st)"

definition handleMelodyGate :: "state \<Rightarrow> state" where
  "handleMelodyGate st =
     (case getTouchedNote st of
        None \<Rightarrow> st
      | Some touchedNote \<Rightarrow>
          if gatedPause st
          then startPlayback (foldl playMelodyNote st (simultaneousNotes st touchedNote))
          else if isPlaying st
          then foldl playMelodyNote st (simultaneousNotes st touchedNote)
          else st)"

text \<open>The callback of \<^verbatim>\<open>melodyNotes.forEach\<close> in \<^verbatim>\<open>animate\<close>.\<close>

definition autoMark :: "state \<Rightarrow> Note \<Rightarrow> state" where
  "autoMark st n =
     (if nid n \<notin> playedMelodyIds st \<and> time n < currentTime st - 0.1
      then st\<lparr> playedMelodyIds := insert (nid n) (playedMelodyIds st) \<rparr>
      else st)"

definition showEndScreen :: "state \<Rightarrow> state" where
  "showEndScreen st =
     st\<lparr> finalScore :=
           (if length (melodyNotes st) > 0
            then (real (touchedMelodyCount st) / real (length (melodyNotes st))) * 100
            else 0) \<rparr>"

definition gateTick :: "state \<Rightarrow> state" where
  "gateTick st = (if isPlaying st \<or> gatedPause st then handleMelodyGate st else st)"

text \<open>One animation frame. Drawing has no effect on the state.\<close>

definition animate :: "state \<Rightarrow> state" where
  "animate st =
     (if isPlaying st then
        (let st1 = st\<lparr> currentTime := transportSeconds st \<rparr>
         in if currentTime st1 \<ge> songDuration st1
            then showEndScreen (pausePlayback (st1\<lparr> currentTime := songDuration st1 \<rparr>))
            else gateTick (foldl autoMark st1 (melodyNotes st1)))
      else gateTick st)"

section \<open>Controls (\<^verbatim>\<open>setupControls\<close>)\<close>

definition whiteKeyPattern :: "int list" where
  "whiteKeyPattern = [0, 2, 4, 5, 7, 9, 11]"

text \<open>
  \<^verbatim>\<open>createPianoKeyboard\<close> pushes the white keys, then the black keys, of the range around
  the pitches of \<^verbatim>\<open>notes\<close>; \<open>layout\<close> is the rectangle (left, width) the browser gives
  the element of a key. With no notes the range is empty.
\<close>

definition mkKey :: "(int \<Rightarrow> real \<times> real) \<Rightarrow> bool \<Rightarrow> int \<Rightarrow> pianoKey" where
  "mkKey layout w midiNote =
     \<lparr> key_midi = midiNote, isWhite = w,
       rect_left = fst (layout midiNote), rect_width = snd (layout midiNote) \<rparr>"

definition createPianoKeyboard :: "(int \<Rightarrow> real \<times> real) \<Rightarrow> state \<Rightarrow> state" where
  "createPianoKeyboard layout st =
     (let midiNotes = map midi (notes st)
      in if midiNotes = [] then st
         else
           (let minNote = max 21 (Min (set midiNotes) - 3);
                maxNote = min 108 (Max (set midiNotes) + 3);
                whites = filter (\<lambda>k. (k mod 12) \<in> set whiteKeyPattern) [minNote..maxNote];
                blacks = filter (\<lambda>k. (k mod 12) \<notin> set whiteKeyPattern) [minNote..maxNote]
            in st\<lparr> pianoKeys := pianoKeys st @ map (mkKey layout True) whites
                                                @ map (mkKey layout False) blacks \<rparr>))"

definition resetProgress :: "state \<Rightarrow> state" where
  "resetProgress st = st\<lparr> currentTime := 0, playedMelodyIds := {}, touchedMelodyCount := 0 \<rparr>"

text \<open>
  The handlers of the song and speed selectors. What follows \<^verbatim>\<open>await loadMIDI\<close> runs
  in one piece when the load has succeeded; when the load gives no score, the globals
  keep what the handler assigned before the \<^verbatim>\<open>await\<close>.
\<close>

definition songChange :: "(string \<rightharpoonup> midi_file) \<Rightarrow> (int \<Rightarrow> real \<times> real) \<Rightarrow> string \<Rightarrow> state \<Rightarrow> state" where
  "songChange fs layout song st =
     (let st1 = st\<lparr> currentSong := song \<rparr>;
          st2 = (if isPlaying st1 then pausePlayback st1 else st1);
          st3 = st2\<lparr> pianoKeys := [] \<rparr>
      in case loadMIDI fs song st3 of
           None \<Rightarrow> st3
         | Some st4 \<Rightarrow> resetProgress (createPianoKeyboard layout st4))"

definition speedChange :: "(string \<rightharpoonup> midi_file) \<Rightarrow> real \<Rightarrow> state \<Rightarrow> state" where
  "speedChange fs speed st =
     (let st1 = st\<lparr> currentSpeed := speed \<rparr>
      in case loadMIDI fs (currentSong st1) st1 of
           None \<Rightarrow> st1
         | Some st2 \<Rightarrow>
             (let st3 = resetProgress st2
              in if isPlaying st3 then startPlayback (pausePlayback st3) else st3))"

text \<open>\<^verbatim>\<open>setInstrument\<close> cancels what is scheduled on the transport.\<close>

definition instrumentChange :: "state \<Rightarrow> state" where
  "instrumentChange st =
     (let st1 = (if isPlaying st then pausePlayback st else st)
      in st1\<lparr> scheduled := [] \<rparr>)"

text \<open>
  \<^verbatim>\<open>init\<close>: the first load and the keyboard. A failed load is caught and leaves the
  loading screen; the audio, control and camera set-up do not touch the score.
\<close>

definition init :: "(string \<rightharpoonup> midi_file) \<Rightarrow> (int \<Rightarrow> real \<times> real) \<Rightarrow> state \<Rightarrow> state" where
  "init fs layout st =
     (case loadMIDI fs (currentSong st) st of
        None \<Rightarrow> st
      | Some st1 \<Rightarrow> createPianoKeyboard layout st1)"

section \<open>The events of a session\<close>

text \<open>
  Besides \<^verbatim>\<open>init\<close> and the handlers above: the hand tracker delivers the mapped points of a frame,
  the transport's clock advances while it is started, and the canvas is resized.
\<close>

datatype event =
    Init
  | Animate
  | SeekTo real
  | SongChange string
  | SpeedChange real
  | TogglePlayback
  | CountdownDone
  | InstrumentChange
  | HandsResults "fingerPoint list"
  | TransportAdvance real
  | Resize real real

definition step :: "(string \<rightharpoonup> midi_file) \<Rightarrow> (int \<Rightarrow> real \<times> real) \<Rightarrow> event \<Rightarrow> state \<Rightarrow> state" where
  "step fs layout e st =
     (case e of
        Init \<Rightarrow> init fs layout st
      | Animate \<Rightarrow> animate st
      | SeekTo t \<Rightarrow> seekTo t st
      | SongChange song \<Rightarrow> songChange fs layout song st
      | SpeedChange speed \<Rightarrow> speedChange fs speed st
      | TogglePlayback \<Rightarrow> togglePlayback st
      | CountdownDone \<Rightarrow> countdownDone st
      | InstrumentChange \<Rightarrow> instrumentChange st
      | HandsResults pts \<Rightarrow> st\<lparr> allFingerPoints := pts \<rparr>
      | TransportAdvance dt \<Rightarrow>
          (if transportStarted st then st\<lparr> transportSeconds := transportSeconds st + dt \<rparr> else st)
      | Resize h l \<Rightarrow> st\<lparr> canvasHeight := h, containerLeft := l \<rparr>)"

section \<open>The scheduler and the melody trigger of \<^verbatim>\<open>js/audio.js\<close>\<close>

text \<open>\<^verbatim>\<open>const safeDuration = Math.max(0.1, note.duration)\<close>\<close>

definition safeDuration :: "Note \<Rightarrow> real" where
  "safeDuration n = max 0.1 (duration n)"

definition safeSoundOf :: "Note \<Rightarrow> sound" where
  "safeSoundOf n = \<lparr> snd_midi = midi n, snd_duration = safeDuration n, snd_velocity = velocity n \<rparr>"

definition scheduleNotes_audio :: "state \<Rightarrow> state" where
  "scheduleNotes_audio st =
     st\<lparr> scheduled := map (\<lambda>n. (time n, safeSoundOf n))
                          (filter (\<lambda>n. time n \<ge> currentTime st) (harmonyNotes st)),
         transportStarted := True \<rparr>"

definition playMelodyNote_audio :: "state \<Rightarrow> Note \<Rightarrow> state" where
  "playMelodyNote_audio st n =
     st\<lparr> triggered := triggered st @ [safeSoundOf n],
         playedMelodyIds := insert (nid n) (playedMelodyIds st),
         touchedMelodyCount := touchedMelodyCount st + 1 \<rparr>"

text \<open>
  \<^verbatim>\<open>handleMelodyGate\<close> of the modular game loop, which is the one of \<^verbatim>\<open>script.js\<close> with
  \<^verbatim>\<open>playMelodyNote\<close> imported from \<^verbatim>\<open>js/audio.js\<close>.
\<close>

definition handleMelodyGate_audio :: "state \<Rightarrow> state" where
  "handleMelodyGate_audio st =
     (case getTouchedNote st of
        None \<Rightarrow> st
      | Some touchedNote \<Rightarrow>
          if gatedPause st
          then startPlayback (foldl playMelodyNote_audio st (simultaneousNotes st touchedNote))
          else if isPlaying st
          then foldl playMelodyNote_audio st (simultaneousNotes st touchedNote)
          else st)"

section \<open>Reference definitions\<close>

text \<open>
  Grouping anchored at the first member: one scan, the state is the closed groups and
  the current group; a note joins the current group exactly when its start time is
  within 0.05 s of the start time of the group's first note.
\<close>

definition anchoredStep :: "Note list list \<times> Note list \<Rightarrow> Note \<Rightarrow> Note list list \<times> Note list" where
  "anchoredStep s n =
     (case s of (groups, current) \<Rightarrow>
        if current \<noteq> [] \<and> \<bar>time n - time (hd current)\<bar> \<le> 0.05
        then (groups, current @ [n])
        else ((if current \<noteq> [] then groups @ [current] else groups), [n]))"

definition closeGroups :: "Note list list \<times> Note list \<Rightarrow> Note list list" where
  "closeGroups s =
     (case s of (groups, current) \<Rightarrow> if current \<noteq> [] then groups @ [current] else groups)"

definition anchoredGroups :: "Note list \<Rightarrow> Note list list" where
  "anchoredGroups ns = closeGroups (foldl anchoredStep ([], []) ns)"

text \<open>
  Grouping by a sliding window: a note joins the current group when the group is empty,
  when the previous note's start time is negative, or when its start time is strictly
  less than 0.05 s away from the previous note's.
\<close>

definition slidingStep :: "Note list list \<times> Note list \<Rightarrow> Note \<Rightarrow> Note list list \<times> Note list" where
  "slidingStep s n =
     (case s of (groups, current) \<Rightarrow>
        if current = [] \<or> time (last current) < 0 \<or> \<bar>time n - time (last current)\<bar> < 0.05
        then (groups, current @ [n])
        else (groups @ [current], [n]))"

definition slidingGroups :: "Note list \<Rightarrow> Note list list" where
  "slidingGroups ns = closeGroups (foldl slidingStep ([], []) ns)"

text \<open>The notes of a group whose pitch no note of the group exceeds, in the group's order.\<close>

definition topPitched :: "Note list \<Rightarrow> Note list" where
  "topPitched grp = filter (\<lambda>n. \<forall>m \<in> set grp. midi m \<le> midi n) grp"

text \<open>The invariant of the score counters.\<close>

definition counted :: "state \<Rightarrow> bool" where
  "counted st \<longleftrightarrow>
     finite (playedMelodyIds st) \<and>
     distinct (map nid (melodyNotes st)) \<and>
     touchedMelodyCount st \<le> card (playedMelodyIds st)"

section \<open>Example data\<close>

text \<open>The globals as \<^verbatim>\<open>script.js\<close> declares them, before \<^verbatim>\<open>init\<close> has run.\<close>

definition initialState :: state where
  "initialState =
     \<lparr> notes = [], melodyNotes = [], harmonyNotes = [],
       isPlaying = False, gatedPause = False,
       currentTime = 0, songDuration = 0, currentSpeed = 1,
       currentSong = ''Kiss The Rain.mid'',
       pianoKeys = [], allFingerPoints = [],
       playedMelodyIds = {}, touchedMelodyCount = 0, finalScore = 0,
       canvasHeight = 0, containerLeft = 0,
       transportSeconds = 0, transportStarted = False,
       scheduled = [], triggered = [], countdowns = 0 \<rparr>"

definition demoNote :: "nat \<Rightarrow> int \<Rightarrow> real \<Rightarrow> real \<Rightarrow> Note" where
  "demoNote i p t d =
     \<lparr> nid = (0, i), midi = p, time = t, duration = d, velocity = 0.8, name = [], trackIndex = 0 \<rparr>"

definition demoRaw :: "int \<Rightarrow> real \<Rightarrow> real \<Rightarrow> raw_note" where
  "demoRaw p t d =
     \<lparr> raw_midi = p, raw_time = t, raw_duration = d, raw_velocity = 0.8, raw_name = [] \<rparr>"

text \<open>One track: a two-note chord at 1 s (pitches 60 and 64) and a single note at 2 s.\<close>

definition demoFile :: midi_file where
  "demoFile = \<lparr> tracks = [[demoRaw 60 1 0.5, demoRaw 64 1 0.5, demoRaw 62 2 0.5]], midi_duration = 3 \<rparr>"

definition demoFs :: "string \<rightharpoonup> midi_file" where
  "demoFs = [''Kiss The Rain.mid'' \<mapsto> demoFile]"

definition demoLoaded :: state where
  "demoLoaded =
     initialState\<lparr> notes := [demoNote 0 60 1 0.5, demoNote 1 64 1 0.5, demoNote 2 62 2 0.5],
                    melodyNotes := [demoNote 1 64 1 0.5, demoNote 2 62 2 0.5],
                    harmonyNotes := [demoNote 0 60 1 0.5],
                    songDuration := 3 \<rparr>"

text \<open>Three notes 0.04 s apart, and two notes exactly 0.05 s apart.\<close>

definition driftNotes :: "Note list" where
  "driftNotes = [demoNote 0 60 0 0.5, demoNote 1 62 0.04 0.5, demoNote 2 64 0.08 0.5]"

definition edgeNotes :: "Note list" where
  "edgeNotes = [demoNote 0 60 0 0.5, demoNote 1 62 0.05 0.5]"

text \<open>A chord whose two highest notes share a pitch.\<close>

definition tieNotes :: "Note list" where
  "tieNotes = [demoNote 0 60 1 0.5, demoNote 1 64 1 0.5, demoNote 2 64 1 0.5]"

text \<open>Two white keys, as the browser might lay them out.\<close>

definition key60 :: pianoKey where
  "key60 = \<lparr> key_midi = 60, isWhite = True, rect_left = 100, rect_width = 30 \<rparr>"

definition key64 :: pianoKey where
  "key64 = \<lparr> key_midi = 64, isWhite = True, rect_left = 160, rect_width = 30 \<rparr>"

text \<open>A file whose second and third notes become melody notes 0.04 s apart.\<close>

definition gateFile :: midi_file where
  "gateFile =
     \<lparr> tracks = [[demoRaw 55 1.47 0.1, demoRaw 64 1.5 0.1, demoRaw 60 1.54 0.1]],
       midi_duration = 10 \<rparr>"

definition gateLoaded :: state where
  "gateLoaded =
     initialState\<lparr> notes := [demoNote 0 55 1.47 0.1, demoNote 1 64 1.5 0.1, demoNote 2 60 1.54 0.1],
                    melodyNotes := [demoNote 1 64 1.5 0.1, demoNote 2 60 1.54 0.1],
                    harmonyNotes := [demoNote 0 55 1.47 0.1],
                    songDuration := 10 \<rparr>"

definition gateState :: state where
  "gateState =
     gateLoaded\<lparr> isPlaying := True, currentTime := 1,
                  pianoKeys := [key60, key64],
                  allFingerPoints := [\<lparr> px = 175, py = 580 \<rparr>],
                  canvasHeight := 940,
                  transportSeconds := 1, transportStarted := True \<rparr>"

text \<open>
  States of the demo song at the end of the song and in mid-song, a state before the end
  of a countdown with a short harmony note, and a state with a note exactly at the edge
  of the hit zone.
\<close>

definition endState :: state where
  "endState =
     demoLoaded\<lparr> isPlaying := True, currentTime := 2.99,
                  transportSeconds := 3.02, transportStarted := True,
                  playedMelodyIds := {(0, 1)}, touchedMelodyCount := 1 \<rparr>"

definition tickState :: state where
  "tickState =
     demoLoaded\<lparr> isPlaying := True, currentTime := 1.4,
                  transportSeconds := 1.5, transportStarted := True \<rparr>"

definition shortState :: state where
  "shortState =
     initialState\<lparr> harmonyNotes := [demoNote 0 48 2 0.05, demoNote 1 50 0.5 0.3],
                    currentTime := 1, countdowns := 1 \<rparr>"

definition edgeState :: state where
  "edgeState =
     initialState\<lparr> notes := [demoNote 0 60 0.44 0.01],
                    melodyNotes := [demoNote 0 60 0.44 0.01],
                    isPlaying := True, songDuration := 10,
                    pianoKeys := [key60, key64],
                    allFingerPoints := [\<lparr> px = 115, py = 620 \<rparr>],
                    canvasHeight := 940 \<rparr>"

section \<open>Grouping\<close>

lemma inGroup_self: "inGroup (time n) n"
  by (simp add: inGroup_def epsilon_def)

lemma concat_splitGroups: "concat (splitGroups ns) = ns"
  by (induction ns rule: splitGroups.induct) simp_all

lemma splitGroups_nonempty: "g \<in> set (splitGroups ns) \<Longrightarrow> g \<noteq> []"
  by (induction ns rule: splitGroups.induct) (auto simp: inGroup_self)

text \<open>The loop of \<^verbatim>\<open>loadMIDI\<close> against the anchored scan, from a non-empty current group.\<close>

lemma anchored_fold:
  "cur \<noteq> [] \<Longrightarrow>
   closeGroups (foldl anchoredStep (gs, cur) ns) =
     gs @ (cur @ takeWhile (inGroup (time (hd cur))) ns)
        # splitGroups (dropWhile (inGroup (time (hd cur))) ns)"
proof (induction ns arbitrary: gs cur)
  case Nil
  then show ?case by (simp add: closeGroups_def)
next
  case (Cons n ns)
  show ?case
  proof (cases "inGroup (time (hd cur)) n")
    case True
    with Cons.prems have "anchoredStep (gs, cur) n = (gs, cur @ [n])"
      by (simp add: anchoredStep_def inGroup_def epsilon_def)
    with Cons.IH[of "cur @ [n]" gs] Cons.prems True show ?thesis by simp
  next
    case False
    with Cons.prems have "anchoredStep (gs, cur) n = (gs @ [cur], [n])"
      by (simp add: anchoredStep_def inGroup_def epsilon_def)
    with Cons.IH[of "[n]" "gs @ [cur]"] False show ?thesis by (simp add: inGroup_self)
  qed
qed

lemma splitGroups_anchored: "splitGroups ns = anchoredGroups ns"
proof (cases ns)
  case Nil
  then show ?thesis by (simp add: anchoredGroups_def closeGroups_def)
next
  case (Cons n ns')
  have "anchoredStep ([], []) n = ([], [n])" by (simp add: anchoredStep_def)
  then show ?thesis using Cons anchored_fold[of "[n]" "[]" ns']
    by (simp add: anchoredGroups_def inGroup_self)
qed

text \<open>
  The loop of \<^verbatim>\<open>separateMelodyHarmony\<close> against the sliding scan: \<^verbatim>\<open>currentGroupTime\<close>
  is the start time of the last note pushed, or \<open>-1\<close> before the first.
\<close>

lemma window_fold:
  assumes "if cur = [] then t = -1 else t = time (last cur)"
  shows "(case foldl groupStep (gs, cur, t) ns of (groups, currentGroup, currentGroupTime) \<Rightarrow>
            if length currentGroup > 0 then groups @ [currentGroup] else groups)
         = closeGroups (foldl slidingStep (gs, cur) ns)"
  using assms
proof (induction ns arbitrary: gs cur t)
  case Nil
  then show ?case by (simp add: closeGroups_def)
next
  case (Cons n ns)
  have next_inv: "if [n] = [] then time n = -1 else time n = time (last [n])"
       "if cur @ [n] = [] then time n = -1 else time n = time (last (cur @ [n]))"
    by simp_all
  show ?case
  proof (cases "t < 0 \<or> \<bar>time n - t\<bar> < timeWindow")
    case True
    then have a: "groupStep (gs, cur, t) n = (gs, cur @ [n], time n)"
      by (simp add: groupStep_def)
    from True Cons.prems have b: "slidingStep (gs, cur) n = (gs, cur @ [n])"
      by (auto simp add: slidingStep_def timeWindow_def split: if_splits)
    from Cons.IH[OF next_inv(2), of gs] a b show ?thesis by simp
  next
    case False
    with Cons.prems have ne: "cur \<noteq> []" by (auto split: if_splits)
    from False ne have a: "groupStep (gs, cur, t) n = (gs @ [cur], [n], time n)"
      by (simp add: groupStep_def)
    from False ne Cons.prems have b: "slidingStep (gs, cur) n = (gs @ [cur], [n])"
      by (auto simp add: slidingStep_def timeWindow_def split: if_splits)
    from Cons.IH[OF next_inv(1), of "gs @ [cur]"] a b show ?thesis by simp
  qed
qed

lemma windowGroups_sliding: "windowGroups ns = slidingGroups ns"
  using window_fold[of "[]" "-1" "[]" ns]
  by (simp add: windowGroups_def slidingGroups_def)

lemma slidingStep_cases:
  "slidingStep (gs, cur) n = (gs, cur @ [n]) \<or>
   (cur \<noteq> [] \<and> slidingStep (gs, cur) n = (gs @ [cur], [n]))"
  by (simp add: slidingStep_def)

lemma concat_sliding_fold:
  "concat (closeGroups (foldl slidingStep (gs, cur) ns)) = concat gs @ cur @ ns"
proof (induction ns arbitrary: gs cur)
  case Nil
  show ?case by (simp add: closeGroups_def)
next
  case (Cons n ns)
  from slidingStep_cases[of gs cur n] show ?case
  proof
    assume "slidingStep (gs, cur) n = (gs, cur @ [n])"
    then show ?thesis using Cons.IH[of gs "cur @ [n]"] by simp
  next
    assume "cur \<noteq> [] \<and> slidingStep (gs, cur) n = (gs @ [cur], [n])"
    then show ?thesis using Cons.IH[of "gs @ [cur]" "[n]"] by simp
  qed
qed

lemma nonempty_sliding_fold:
  "\<forall>g \<in> set gs. g \<noteq> [] \<Longrightarrow>
   g \<in> set (closeGroups (foldl slidingStep (gs, cur) ns)) \<Longrightarrow> g \<noteq> []"
proof (induction ns arbitrary: gs cur)
  case Nil
  then show ?case by (auto simp: closeGroups_def split: if_splits)
next
  case (Cons n ns)
  from slidingStep_cases[of gs cur n] show ?case
  proof
    assume "slidingStep (gs, cur) n = (gs, cur @ [n])"
    then show ?thesis using Cons.IH[of gs "cur @ [n]"] Cons.prems by simp
  next
    assume a: "cur \<noteq> [] \<and> slidingStep (gs, cur) n = (gs @ [cur], [n])"
    then have "\<forall>g \<in> set (gs @ [cur]). g \<noteq> []" using Cons.prems(1) by simp
    then show ?thesis using Cons.IH[of "gs @ [cur]" "[n]"] Cons.prems(2) a by simp
  qed
qed

lemma concat_windowGroups: "concat (windowGroups ns) = ns"
  using concat_sliding_fold[of "[]" "[]" ns] by (simp add: windowGroups_sliding slidingGroups_def)

lemma windowGroups_nonempty: "g \<in> set (windowGroups ns) \<Longrightarrow> g \<noteq> []"
  using nonempty_sliding_fold[of "[]" g "[]" ns] by (simp add: windowGroups_sliding slidingGroups_def)

lemma loadMIDI_groups:
  assumes "loadMIDI fs f st = Some st'"
  shows "melodyNotes st' = map melodyOf (splitGroups (notes st'))"
    and "harmonyNotes st' = concat (map harmonyOf (splitGroups (notes st')))"
  using assms by (auto simp: loadMIDI_def Let_def split: option.splits if_splits)

lemma demo_load: "loadMIDI demoFs ''Kiss The Rain.mid'' initialState = Some demoLoaded"
  by (simp add: loadMIDI_def demoFs_def demoFile_def initialState_def demoLoaded_def
      extractNotes_def trackNotes_def mkNote_def demoRaw_def demoNote_def enumerate_eq_zip
      melodyOf_def higher_def harmonyOf_def inGroup_def epsilon_def)

text \<open>
  C1, as amended. The split of \<^verbatim>\<open>loadMIDI\<close> in \<^verbatim>\<open>script.js\<close> groups the sorted notes by
  one left-to-right scan in which a note joins the current group exactly when its start
  time is at most 0.05 s away from the start time of the group's first note (the anchor
  does not move). The split of \<^verbatim>\<open>separateMelodyHarmony\<close> in \<^verbatim>\<open>js/midi.js\<close> is a sliding
  window: a note joins the current group when its start time is strictly less than
  0.05 s away from the start time of the note before it (or when there is no note before
  it, or that note's start time is negative).
\<close>

theorem grouping_by_variant:
  "(loadMIDI fs f st = Some st' \<longrightarrow>
      melodyNotes st' = map melodyOf (anchoredGroups (notes st')) \<and>
      harmonyNotes st' = concat (map harmonyOf (anchoredGroups (notes st')))) \<and>
   splitGroups ns = anchoredGroups ns \<and>
   windowGroups ns = slidingGroups ns \<and>
   separateMelodyHarmony ns =
     (map windowMelody (slidingGroups ns), concat (map windowHarmony (slidingGroups ns)))"
  using loadMIDI_groups[of fs f st st']
  by (simp add: splitGroups_anchored windowGroups_sliding separateMelodyHarmony_def Let_def)

text \<open>
  C1, witness: the demo file loads, its chord at 1 s is one anchored group, and the
  three notes 0.04 s apart are two groups for \<^verbatim>\<open>script.js\<close> and one for \<^verbatim>\<open>js/midi.js\<close>.
\<close>

theorem grouping_by_variant_witness:
  "loadMIDI demoFs ''Kiss The Rain.mid'' initialState = Some demoLoaded \<and>
   anchoredGroups (notes demoLoaded) =
     [[demoNote 0 60 1 0.5, demoNote 1 64 1 0.5], [demoNote 2 62 2 0.5]] \<and>
   splitGroups driftNotes =
     [[demoNote 0 60 0 0.5, demoNote 1 62 0.04 0.5], [demoNote 2 64 0.08 0.5]] \<and>
   windowGroups driftNotes = [driftNotes]"
proof -
  have l: "loadMIDI demoFs ''Kiss The Rain.mid'' initialState = Some demoLoaded"
    by (rule demo_load)
  have a: "anchoredGroups (notes demoLoaded) =
     [[demoNote 0 60 1 0.5, demoNote 1 64 1 0.5], [demoNote 2 62 2 0.5]]"
    by (simp add: anchoredGroups_def anchoredStep_def closeGroups_def demoLoaded_def
        initialState_def demoNote_def)
  have b: "anchoredGroups driftNotes =
     [[demoNote 0 60 0 0.5, demoNote 1 62 0.04 0.5], [demoNote 2 64 0.08 0.5]]"
    by (simp add: anchoredGroups_def anchoredStep_def closeGroups_def driftNotes_def demoNote_def)
  have c: "slidingGroups driftNotes = [driftNotes]"
    by (simp add: slidingGroups_def slidingStep_def closeGroups_def driftNotes_def demoNote_def)
  from grouping_by_variant[of demoFs "''Kiss The Rain.mid''" initialState demoLoaded driftNotes]
    l a b c
  show ?thesis by simp
qed

text \<open>
  C1, counterexample to the claim as stated: \<^verbatim>\<open>separateMelodyHarmony\<close> of \<^verbatim>\<open>js/midi.js\<close>
  puts three notes at 0, 0.04 and 0.08 s into one group (the third is 0.08 s after the
  first), where the anchored scan closes the group after the second; and it separates
  two notes exactly 0.05 s apart, which the anchored scan keeps together.
\<close>

theorem sliding_window_counterexample:
  "windowGroups driftNotes =
     [[demoNote 0 60 0 0.5, demoNote 1 62 0.04 0.5, demoNote 2 64 0.08 0.5]] \<and>
   anchoredGroups driftNotes =
     [[demoNote 0 60 0 0.5, demoNote 1 62 0.04 0.5], [demoNote 2 64 0.08 0.5]] \<and>
   separateMelodyHarmony driftNotes =
     ([demoNote 2 64 0.08 0.5], [demoNote 1 62 0.04 0.5, demoNote 0 60 0 0.5]) \<and>
   windowGroups edgeNotes = [[demoNote 0 60 0 0.5], [demoNote 1 62 0.05 0.5]] \<and>
   anchoredGroups edgeNotes = [[demoNote 0 60 0 0.5, demoNote 1 62 0.05 0.5]]"
  by (simp add: windowGroups_def groupStep_def timeWindow_def anchoredGroups_def anchoredStep_def
      closeGroups_def driftNotes_def edgeNotes_def demoNote_def separateMelodyHarmony_def
      windowMelody_def windowHarmony_def sortByPitch_def)

section \<open>Note ids\<close>

lemma nid_mkNote: "nid (mkNote k ti p) = (ti, fst p)"
  by (simp add: mkNote_def)

lemma map_nid_trackNotes: "map nid (trackNotes k (ti, tr)) = map (Pair ti) [0..<length tr]"
proof -
  have "map (Pair ti) (map fst (enumerate 0 tr)) = map (Pair ti) [0..<length tr]"
    by simp
  moreover have "map nid (trackNotes k (ti, tr)) = map (Pair ti) (map fst (enumerate 0 tr))"
    unfolding trackNotes_def by (simp only: map_map comp_def nid_mkNote fst_conv snd_conv)
  ultimately show ?thesis by simp
qed

lemma distinct_nid_trackNotes: "distinct (map nid (trackNotes k (ti, tr)))"
  by (simp add: map_nid_trackNotes distinct_map inj_on_def)

lemma fst_nid_trackNotes: "n \<in> set (trackNotes k (ti, tr)) \<Longrightarrow> fst (nid n) = ti"
  by (auto simp: trackNotes_def nid_mkNote)

text \<open>The ids of the tracks from index \<open>i\<close> on are distinct and carry a track index \<open>\<ge> i\<close>.\<close>

lemma nid_tracks_from:
  "distinct (map nid (concat (map (trackNotes k) (enumerate i ts)))) \<and>
   (\<forall>n \<in> set (concat (map (trackNotes k) (enumerate i ts))). i \<le> fst (nid n))"
proof (induction ts arbitrary: i)
  case Nil
  show ?case by simp
next
  case (Cons t ts)
  have "\<forall>n \<in> set (concat (map (trackNotes k) (enumerate (Suc i) ts))). Suc i \<le> fst (nid n)"
    using Cons.IH[of "Suc i"] by blast
  moreover have "\<forall>n \<in> set (trackNotes k (i, t)). fst (nid n) = i"
    by (simp add: fst_nid_trackNotes)
  ultimately have "set (map nid (trackNotes k (i, t))) \<inter>
         set (map nid (concat (map (trackNotes k) (enumerate (Suc i) ts)))) = {}"
    by (auto simp del: set_concat)
  then show ?case using Cons.IH[of "Suc i"] distinct_nid_trackNotes[of k i t]
      fst_nid_trackNotes[of _ k i t]
    by (auto simp del: set_concat)
qed

lemma distinct_nid_extractNotes: "distinct (map nid (extractNotes m k))"
  using nid_tracks_from[of k 0 "tracks m"] by (simp add: extractNotes_def)

lemma loadMIDI_distinct_ids:
  assumes "loadMIDI fs f st = Some st'"
  shows "distinct (map nid (notes st'))"
  using assms distinct_nid_extractNotes
  by (auto simp: loadMIDI_def Let_def distinct_map split: option.splits if_splits)

section \<open>Melody selection\<close>

lemma foldl_higher_split:
  "\<exists>pre post. a # xs = pre @ foldl higher a xs # post \<and>
      (\<forall>p \<in> set pre. midi p < midi (foldl higher a xs)) \<and>
      (\<forall>q \<in> set post. midi q \<le> midi (foldl higher a xs))"
proof (induction xs rule: rev_induct)
  case Nil
  show ?case by (intro exI[of _ "[]"]) simp
next
  case (snoc x xs)
  then obtain pre post where d: "a # xs = pre @ foldl higher a xs # post"
      and lo: "\<forall>p \<in> set pre. midi p < midi (foldl higher a xs)"
      and hi: "\<forall>q \<in> set post. midi q \<le> midi (foldl higher a xs)"
    by blast
  let ?r = "foldl higher a xs"
  show ?case
  proof (cases "midi x > midi ?r")
    case True
    then have r: "foldl higher a (xs @ [x]) = x" by (simp add: higher_def)
    have "\<forall>p \<in> set (a # xs). midi p < midi x"
    proof
      fix p assume "p \<in> set (a # xs)"
      then have "p \<in> set pre \<or> p = ?r \<or> p \<in> set post" unfolding d by auto
      then show "midi p < midi x" using lo hi True by force
    qed
    then show ?thesis using r by (intro exI[of _ "a # xs"] exI[of _ "[]"]) simp
  next
    case False
    then have r: "foldl higher a (xs @ [x]) = ?r" by (simp add: higher_def)
    show ?thesis using d lo hi False r
      by (intro exI[of _ pre] exI[of _ "post @ [x]"]) auto
  qed
qed

lemma melodyOf_Cons: "melodyOf (x # xs) = foldl higher x xs"
  by (simp add: melodyOf_def higher_def)

lemma hd_topPitched_split:
  assumes "g = pre @ r # post" "\<forall>p \<in> set pre. midi p < midi r" "\<forall>q \<in> set post. midi q \<le> midi r"
  shows "hd (topPitched g) = r" "\<forall>n \<in> set g. midi n \<le> midi r"
proof -
  show all: "\<forall>n \<in> set g. midi n \<le> midi r" using assms by auto
  have "filter (\<lambda>n. \<forall>m \<in> set g. midi m \<le> midi n) pre = []"
    using assms by (auto simp: filter_empty_conv)
  then show "hd (topPitched g) = r" using all assms(1) by (simp add: topPitched_def)
qed

lemma melodyOf_top:
  assumes "g \<noteq> []"
  shows "melodyOf g = hd (topPitched g)"
    and "\<forall>n \<in> set g. midi n \<le> midi (melodyOf g)"
    and "melodyOf g \<in> set g"
proof -
  from assms obtain x xs where g: "g = x # xs" by (cases g) auto
  obtain pre post where d: "x # xs = pre @ foldl higher x xs # post"
      and lo: "\<forall>p \<in> set pre. midi p < midi (foldl higher x xs)"
      and hi: "\<forall>q \<in> set post. midi q \<le> midi (foldl higher x xs)"
    using foldl_higher_split[of x xs] by blast
  from hd_topPitched_split[OF d lo hi] g
  show "melodyOf g = hd (topPitched g)" "\<forall>n \<in> set g. midi n \<le> midi (melodyOf g)"
    by (simp_all add: melodyOf_Cons)
  show "melodyOf g \<in> set g" using d g by (metis melodyOf_Cons in_set_conv_decomp)
qed

text \<open>A stable sort by descending pitch puts the first of the highest notes in front.\<close>

lemma hd_sortByPitch_top:
  assumes "g \<noteq> []"
  shows "hd (sortByPitch g) = hd (topPitched g)"
    and "\<forall>n \<in> set g. midi n \<le> midi (hd (sortByPitch g))"
    and "hd (sortByPitch g) \<in> set g"
proof -
  let ?f = "\<lambda>n. - midi n"
  let ?s = "sort_key ?f g"
  from assms have ne: "?s \<noteq> []" by (metis length_0_conv length_sort)
  then obtain y ys where s: "?s = y # ys" by (cases ?s) auto
  have "sorted (map ?f ?s)" by (rule sorted_sort_key)
  with s have "\<forall>z \<in> set ?s. ?f y \<le> ?f z" by auto
  then have top: "\<forall>n \<in> set g. midi n \<le> midi y" by simp
  have yin: "y \<in> set g" using s by (metis list.set_intros(1) set_sort)
  have eq: "topPitched g = filter (\<lambda>n. ?f n = ?f y) g"
    unfolding topPitched_def using top yin by (intro filter_cong) (auto intro: antisym)
  have "filter (\<lambda>n. ?f n = ?f y) ?s = filter (\<lambda>n. ?f n = ?f y) g"
    by (rule sort_key_stable)
  with s have "hd (filter (\<lambda>n. ?f n = ?f y) g) = y"
    by (metis (mono_tags, lifting) filter.simps(2) list.sel(1))
  with eq s show "hd (sortByPitch g) = hd (topPitched g)" by (simp add: sortByPitch_def)
  from top s show "\<forall>n \<in> set g. midi n \<le> midi (hd (sortByPitch g))" by (simp add: sortByPitch_def)
  from yin s show "hd (sortByPitch g) \<in> set g" by (simp add: sortByPitch_def)
qed

lemma windowMelody_top:
  assumes "g \<noteq> []"
  shows "windowMelody g = hd (topPitched g)"
    and "\<forall>n \<in> set g. midi n \<le> midi (windowMelody g)"
    and "windowMelody g \<in> set g"
proof -
  show "windowMelody g = hd (topPitched g)"
  proof (cases "length g = 1")
    case True
    then obtain x where "g = [x]" by (cases g) auto
    then show ?thesis by (simp add: windowMelody_def topPitched_def)
  next
    case False
    then show ?thesis using hd_sortByPitch_top(1)[OF assms] by (simp add: windowMelody_def)
  qed
  show "\<forall>n \<in> set g. midi n \<le> midi (windowMelody g)"
  proof (cases "length g = 1")
    case True
    then obtain x where "g = [x]" by (cases g) auto
    then show ?thesis by (simp add: windowMelody_def)
  next
    case False
    then show ?thesis using hd_sortByPitch_top(2)[OF assms] by (simp add: windowMelody_def)
  qed
  show "windowMelody g \<in> set g"
  proof (cases "length g = 1")
    case True
    then obtain x where "g = [x]" by (cases g) auto
    then show ?thesis by (simp add: windowMelody_def)
  next
    case False
    then show ?thesis using hd_sortByPitch_top(3)[OF assms] by (simp add: windowMelody_def)
  qed
qed

section \<open>Partition\<close>

lemma harmonyOf_mset:
  assumes "g \<noteq> []" "distinct (map nid g)"
  shows "add_mset (melodyOf g) (mset (harmonyOf g)) = mset g"
proof -
  let ?m = "melodyOf g"
  have min: "?m \<in> set g" by (rule melodyOf_top(3)[OF assms(1)])
  have dg: "distinct g" using assms(2) by (simp add: distinct_map)
  have inj: "inj_on nid (set g)" using assms(2) by (simp add: distinct_map)
  have "harmonyOf g = filter (\<lambda>n. n \<noteq> ?m) g"
    unfolding harmonyOf_def using inj min by (intro filter_cong) (auto dest: inj_onD)
  also have "\<dots> = remove1 ?m g"
    using dg by (simp add: distinct_remove1_removeAll removeAll_filter_not_eq) metis
  finally show ?thesis using min by simp
qed

lemma groups_partition:
  assumes "\<forall>g \<in> set gs. g \<noteq> [] \<and> distinct (map nid g)"
  shows "mset (map melodyOf gs) + mset (concat (map harmonyOf gs)) = mset (concat gs)"
  using assms
proof (induction gs)
  case Nil
  show ?case by simp
next
  case (Cons g gs)
  then have "add_mset (melodyOf g) (mset (harmonyOf g)) = mset g" by (simp add: harmonyOf_mset)
  moreover have "mset (map melodyOf gs) + mset (concat (map harmonyOf gs)) = mset (concat gs)"
    using Cons by simp
  ultimately show ?case by (simp add: ac_simps)
qed

lemma distinct_group:
  assumes "distinct (map nid (concat gs))" "g \<in> set gs"
  shows "distinct (map nid g)"
  using assms by (induction gs) (auto simp: map_concat)

lemma window_parts_mset:
  assumes "g \<noteq> []"
  shows "add_mset (windowMelody g) (mset (windowHarmony g)) = mset g"
proof (cases "length g = 1")
  case True
  then obtain x where "g = [x]" by (cases g) auto
  then show ?thesis by (simp add: windowMelody_def windowHarmony_def)
next
  case False
  have ne: "sortByPitch g \<noteq> []" using assms by (metis length_0_conv length_sort sortByPitch_def)
  then have "add_mset (hd (sortByPitch g)) (mset (tl (sortByPitch g))) = mset (sortByPitch g)"
    by (cases "sortByPitch g") auto
  then show ?thesis using False by (simp add: windowMelody_def windowHarmony_def sortByPitch_def)
qed

lemma window_partition:
  assumes "\<forall>g \<in> set gs. g \<noteq> []"
  shows "mset (map windowMelody gs) + mset (concat (map windowHarmony gs)) = mset (concat gs)"
  using assms
proof (induction gs)
  case Nil
  show ?case by simp
next
  case (Cons g gs)
  then have "add_mset (windowMelody g) (mset (windowHarmony g)) = mset g"
    by (simp add: window_parts_mset)
  moreover have "mset (map windowMelody gs) + mset (concat (map windowHarmony gs)) = mset (concat gs)"
    using Cons by simp
  ultimately show ?case by (simp add: ac_simps)
qed

lemma partition_facts:
  assumes "mset mel + mset har = mset ns"
  shows "length mel + length har = length ns"
    and "distinct ns \<Longrightarrow> set mel \<inter> set har = {}"
    and "distinct (map f ns) \<Longrightarrow> f ` set mel \<inter> f ` set har = {}"
    and "distinct (map f ns) \<Longrightarrow> distinct (map f mel)"
proof -
  have m: "mset (mel @ har) = mset ns" using assms by simp
  then show "length mel + length har = length ns" by (metis length_append mset_eq_length)
  show "distinct ns \<Longrightarrow> set mel \<inter> set har = {}"
    using m by (metis distinct_append mset_eq_imp_distinct_iff)
  have mf: "mset (map f mel @ map f har) = mset (map f ns)" using m by (metis map_append mset_map)
  then have d: "distinct (map f ns) \<Longrightarrow> distinct (map f mel @ map f har)"
    by (metis mset_eq_imp_distinct_iff)
  show "distinct (map f ns) \<Longrightarrow> f ` set mel \<inter> f ` set har = {}"
    using d by (metis distinct_append set_map)
  show "distinct (map f ns) \<Longrightarrow> distinct (map f mel)"
    using d by (metis distinct_append)
qed

lemma loadMIDI_partition:
  assumes "loadMIDI fs f st = Some st'"
  shows "mset (melodyNotes st') + mset (harmonyNotes st') = mset (notes st')"
proof -
  let ?gs = "splitGroups (notes st')"
  have d: "distinct (map nid (concat ?gs))"
    using loadMIDI_distinct_ids[OF assms] by (simp add: concat_splitGroups)
  have "\<forall>g \<in> set ?gs. g \<noteq> [] \<and> distinct (map nid g)"
    using distinct_group[OF d] splitGroups_nonempty by blast
  from groups_partition[OF this] show ?thesis
    by (simp add: loadMIDI_groups[OF assms] concat_splitGroups)
qed

lemma separate_partition:
  assumes "separateMelodyHarmony ns = (mel, har)"
  shows "mset mel + mset har = mset ns"
proof -
  have "\<forall>g \<in> set (windowGroups ns). g \<noteq> []" using windowGroups_nonempty by blast
  from window_partition[OF this] assms show ?thesis
    by (auto simp: separateMelodyHarmony_def Let_def concat_windowGroups)
qed

text \<open>
  C2. After every successful load, each parsed note is in exactly one of the two parts of
  the split: the melody and harmony notes together are the notes (as multisets, so the
  lengths add up to \<^verbatim>\<open>notes.length\<close>), and no note, and no note id, is in both. The same
  holds of \<^verbatim>\<open>separateMelodyHarmony\<close> in \<^verbatim>\<open>js/midi.js\<close>, which splits by position; there
  the two parts share no note when the notes are pairwise different.
\<close>

theorem split_is_partition:
  "(loadMIDI fs f st = Some st' \<longrightarrow>
      length (melodyNotes st') + length (harmonyNotes st') = length (notes st') \<and>
      mset (melodyNotes st') + mset (harmonyNotes st') = mset (notes st') \<and>
      set (melodyNotes st') \<inter> set (harmonyNotes st') = {} \<and>
      nid ` set (melodyNotes st') \<inter> nid ` set (harmonyNotes st') = {}) \<and>
   (separateMelodyHarmony ns = (mel, har) \<longrightarrow>
      length mel + length har = length ns \<and>
      mset mel + mset har = mset ns \<and>
      (distinct ns \<longrightarrow> set mel \<inter> set har = {}))"
proof (intro conjI impI)
  assume l: "loadMIDI fs f st = Some st'"
  note p = loadMIDI_partition[OF l]
  note d = loadMIDI_distinct_ids[OF l]
  show "length (melodyNotes st') + length (harmonyNotes st') = length (notes st')"
    by (rule partition_facts(1)[OF p])
  show "mset (melodyNotes st') + mset (harmonyNotes st') = mset (notes st')" by (rule p)
  show "nid ` set (melodyNotes st') \<inter> nid ` set (harmonyNotes st') = {}"
    by (rule partition_facts(3)[OF p d])
  then show "set (melodyNotes st') \<inter> set (harmonyNotes st') = {}" by blast
next
  assume s: "separateMelodyHarmony ns = (mel, har)"
  note p = separate_partition[OF s]
  show "length mel + length har = length ns" by (rule partition_facts(1)[OF p])
  show "mset mel + mset har = mset ns" by (rule p)
  assume "distinct ns"
  then show "set mel \<inter> set har = {}" by (rule partition_facts(2)[OF p])
qed

lemma demo_separate:
  "separateMelodyHarmony driftNotes =
     ([demoNote 2 64 0.08 0.5], [demoNote 1 62 0.04 0.5, demoNote 0 60 0 0.5])"
  by (simp add: windowGroups_def groupStep_def timeWindow_def driftNotes_def demoNote_def
      separateMelodyHarmony_def windowMelody_def windowHarmony_def sortByPitch_def)

text \<open>
  C2, witness: the demo file (a chord of pitches 60 and 64 at 1 s, a note at 2 s) loads
  into two melody notes and one harmony note; pitch 60 of the chord is the harmony note.
\<close>

theorem split_is_partition_witness:
  "loadMIDI demoFs ''Kiss The Rain.mid'' initialState = Some demoLoaded \<and>
   length (melodyNotes demoLoaded) + length (harmonyNotes demoLoaded) = length (notes demoLoaded) \<and>
   set (melodyNotes demoLoaded) \<inter> set (harmonyNotes demoLoaded) = {} \<and>
   melodyNotes demoLoaded = [demoNote 1 64 1 0.5, demoNote 2 62 2 0.5] \<and>
   harmonyNotes demoLoaded = [demoNote 0 60 1 0.5] \<and>
   separateMelodyHarmony driftNotes =
     ([demoNote 2 64 0.08 0.5], [demoNote 1 62 0.04 0.5, demoNote 0 60 0 0.5]) \<and>
   distinct driftNotes \<and>
   length [demoNote 2 64 0.08 0.5] + length [demoNote 1 62 0.04 0.5, demoNote 0 60 0 0.5]
     = length driftNotes \<and>
   set [demoNote 2 64 0.08 0.5] \<inter> set [demoNote 1 62 0.04 0.5, demoNote 0 60 0 0.5] = {}"
proof -
  have d: "distinct driftNotes" by (simp add: driftNotes_def demoNote_def)
  have m: "melodyNotes demoLoaded = [demoNote 1 64 1 0.5, demoNote 2 62 2 0.5]"
     "harmonyNotes demoLoaded = [demoNote 0 60 1 0.5]"
    by (simp_all add: demoLoaded_def initialState_def)
  from split_is_partition[of demoFs "''Kiss The Rain.mid''" initialState demoLoaded driftNotes
      "[demoNote 2 64 0.08 0.5]" "[demoNote 1 62 0.04 0.5, demoNote 0 60 0 0.5]"]
    demo_load demo_separate d m
  show ?thesis by simp
qed

text \<open>
  C3. In every group of the split the note chosen as melody is a note of the group whose
  pitch is at least the pitch of every note of the group, and it is the first note, in
  sort order, among those of maximal pitch. This holds of the groups of \<^verbatim>\<open>loadMIDI\<close>
  (\<^verbatim>\<open>script.js\<close>) and of the groups of \<^verbatim>\<open>separateMelodyHarmony\<close> (\<^verbatim>\<open>js/midi.js\<close>).
\<close>

theorem melody_is_first_highest:
  "(loadMIDI fs f st = Some st' \<longrightarrow> melodyNotes st' = map melodyOf (splitGroups (notes st'))) \<and>
   (g \<in> set (splitGroups ns) \<longrightarrow>
      melodyOf g \<in> set g \<and> (\<forall>n \<in> set g. midi n \<le> midi (melodyOf g)) \<and>
      melodyOf g = hd (topPitched g)) \<and>
   fst (separateMelodyHarmony ns) = map windowMelody (windowGroups ns) \<and>
   (g \<in> set (windowGroups ns) \<longrightarrow>
      windowMelody g \<in> set g \<and> (\<forall>n \<in> set g. midi n \<le> midi (windowMelody g)) \<and>
      windowMelody g = hd (topPitched g))"
  using loadMIDI_groups(1)[of fs f st st'] splitGroups_nonempty[of g ns] windowGroups_nonempty[of g ns]
    melodyOf_top[of g] windowMelody_top[of g]
  by (auto simp: separateMelodyHarmony_def Let_def)

text \<open>
  C3, witness: in a group of pitches 60, 64, 64 the first of the two notes of pitch 64 is
  the melody, for both splits.
\<close>

theorem melody_is_first_highest_witness:
  "tieNotes \<in> set (splitGroups tieNotes) \<and> tieNotes \<in> set (windowGroups tieNotes) \<and>
   hd (topPitched tieNotes) = demoNote 1 64 1 0.5 \<and>
   melodyOf tieNotes = demoNote 1 64 1 0.5 \<and>
   windowMelody tieNotes = demoNote 1 64 1 0.5 \<and>
   midi (melodyOf tieNotes) = 64"
proof -
  have a: "tieNotes \<in> set (splitGroups tieNotes)"
    by (simp add: tieNotes_def demoNote_def inGroup_def epsilon_def)
  have b: "tieNotes \<in> set (windowGroups tieNotes)"
    by (simp add: tieNotes_def demoNote_def windowGroups_def groupStep_def timeWindow_def)
  have c: "hd (topPitched tieNotes) = demoNote 1 64 1 0.5"
    by (simp add: tieNotes_def demoNote_def topPitched_def)
  from melody_is_first_highest[of demoFs "''Kiss The Rain.mid''" initialState demoLoaded tieNotes tieNotes]
    a b c
  show ?thesis by (simp add: demoNote_def)
qed

section \<open>The melody gate\<close>

lemma foldl_playMelodyNote:
  "playedMelodyIds (foldl playMelodyNote st ns) = playedMelodyIds st \<union> nid ` set ns \<and>
   touchedMelodyCount (foldl playMelodyNote st ns) = touchedMelodyCount st + length ns \<and>
   triggered (foldl playMelodyNote st ns) = triggered st @ map soundOf ns \<and>
   melodyNotes (foldl playMelodyNote st ns) = melodyNotes st \<and>
   currentTime (foldl playMelodyNote st ns) = currentTime st"
  by (induction ns arbitrary: st) (auto simp: playMelodyNote_def)

lemma foldl_playMelodyNote_audio:
  "playedMelodyIds (foldl playMelodyNote_audio st ns) = playedMelodyIds st \<union> nid ` set ns \<and>
   touchedMelodyCount (foldl playMelodyNote_audio st ns) = touchedMelodyCount st + length ns \<and>
   triggered (foldl playMelodyNote_audio st ns) = triggered st @ map safeSoundOf ns"
  by (induction ns arbitrary: st) (auto simp: playMelodyNote_audio_def)

lemma handleMelodyGate_hit:
  assumes "getTouchedNote st = Some touchedNote" "isPlaying st \<or> gatedPause st"
  shows "playedMelodyIds (handleMelodyGate st) =
           playedMelodyIds st \<union> set (map nid (simultaneousNotes st touchedNote))"
    and "touchedMelodyCount (handleMelodyGate st) =
           touchedMelodyCount st + length (simultaneousNotes st touchedNote)"
    and "triggered (handleMelodyGate st) =
           triggered st @ map soundOf (simultaneousNotes st touchedNote)"
proof -
  let ?sim = "simultaneousNotes st touchedNote"
  have "handleMelodyGate st = startPlayback (foldl playMelodyNote st ?sim) \<or>
        handleMelodyGate st = foldl playMelodyNote st ?sim"
    using assms by (auto simp: handleMelodyGate_def)
  then have "playedMelodyIds (handleMelodyGate st) = playedMelodyIds (foldl playMelodyNote st ?sim) \<and>
        touchedMelodyCount (handleMelodyGate st) = touchedMelodyCount (foldl playMelodyNote st ?sim) \<and>
        triggered (handleMelodyGate st) = triggered (foldl playMelodyNote st ?sim)"
    by (auto simp: startPlayback_def)
  then show "playedMelodyIds (handleMelodyGate st) =
           playedMelodyIds st \<union> set (map nid (simultaneousNotes st touchedNote))"
    and "touchedMelodyCount (handleMelodyGate st) =
           touchedMelodyCount st + length (simultaneousNotes st touchedNote)"
    and "triggered (handleMelodyGate st) =
           triggered st @ map soundOf (simultaneousNotes st touchedNote)"
    using foldl_playMelodyNote[of st ?sim] by simp_all
qed

lemma handleMelodyGate_audio_hit:
  assumes "getTouchedNote st = Some touchedNote" "isPlaying st \<or> gatedPause st"
  shows "playedMelodyIds (handleMelodyGate_audio st) =
           playedMelodyIds st \<union> set (map nid (simultaneousNotes st touchedNote))"
    and "touchedMelodyCount (handleMelodyGate_audio st) =
           touchedMelodyCount st + length (simultaneousNotes st touchedNote)"
    and "triggered (handleMelodyGate_audio st) =
           triggered st @ map safeSoundOf (simultaneousNotes st touchedNote)"
proof -
  let ?sim = "simultaneousNotes st touchedNote"
  have "handleMelodyGate_audio st = startPlayback (foldl playMelodyNote_audio st ?sim) \<or>
        handleMelodyGate_audio st = foldl playMelodyNote_audio st ?sim"
    using assms by (auto simp: handleMelodyGate_audio_def)
  then have "playedMelodyIds (handleMelodyGate_audio st) =
          playedMelodyIds (foldl playMelodyNote_audio st ?sim) \<and>
        touchedMelodyCount (handleMelodyGate_audio st) =
          touchedMelodyCount (foldl playMelodyNote_audio st ?sim) \<and>
        triggered (handleMelodyGate_audio st) = triggered (foldl playMelodyNote_audio st ?sim)"
    by (auto simp: startPlayback_def)
  then show "playedMelodyIds (handleMelodyGate_audio st) =
           playedMelodyIds st \<union> set (map nid (simultaneousNotes st touchedNote))"
    and "touchedMelodyCount (handleMelodyGate_audio st) =
           touchedMelodyCount st + length (simultaneousNotes st touchedNote)"
    and "triggered (handleMelodyGate_audio st) =
           triggered st @ map safeSoundOf (simultaneousNotes st touchedNote)"
    using foldl_playMelodyNote_audio[of st ?sim] by simp_all
qed

text \<open>
  C4. When the melody gate runs (the controller is playing or gated) and the hit detector
  returns a touched note, the melody notes that are not yet played and start within
  0.05 s of the touched note are exactly the notes the gate plays: the id of each is
  added to the played set, the touched count grows by one per such note, and one sound
  per such note is triggered, in the order of the melody. This holds of the gate of
  \<^verbatim>\<open>script.js\<close> and of the modular game loop (whose sounds carry the clamped duration).
\<close>

theorem gate_hit_plays_simultaneous:
  assumes "getTouchedNote st = Some touchedNote" "isPlaying st \<or> gatedPause st"
  shows "simultaneousNotes st touchedNote =
           filter (\<lambda>n. nid n \<notin> playedMelodyIds st \<and> \<bar>time n - time touchedNote\<bar> \<le> 0.05)
                  (melodyNotes st) \<and>
         playedMelodyIds (handleMelodyGate st) =
           playedMelodyIds st \<union> set (map nid (simultaneousNotes st touchedNote)) \<and>
         touchedMelodyCount (handleMelodyGate st) =
           touchedMelodyCount st + length (simultaneousNotes st touchedNote) \<and>
         triggered (handleMelodyGate st) =
           triggered st @ map soundOf (simultaneousNotes st touchedNote) \<and>
         playedMelodyIds (handleMelodyGate_audio st) =
           playedMelodyIds st \<union> set (map nid (simultaneousNotes st touchedNote)) \<and>
         touchedMelodyCount (handleMelodyGate_audio st) =
           touchedMelodyCount st + length (simultaneousNotes st touchedNote) \<and>
         triggered (handleMelodyGate_audio st) =
           triggered st @ map safeSoundOf (simultaneousNotes st touchedNote)"
proof -
  have sim: "simultaneousNotes st touchedNote =
           filter (\<lambda>n. nid n \<notin> playedMelodyIds st \<and> \<bar>time n - time touchedNote\<bar> \<le> 0.05)
                  (melodyNotes st)"
    by (simp add: simultaneousNotes_def epsilon_def)
  show ?thesis
    by (intro conjI) (rule sim handleMelodyGate_hit[OF assms] handleMelodyGate_audio_hit[OF assms])+
qed

lemma gate_load:
  "loadMIDI [''Kiss The Rain.mid'' \<mapsto> gateFile] ''Kiss The Rain.mid'' initialState = Some gateLoaded"
  by (simp add: loadMIDI_def gateFile_def initialState_def gateLoaded_def
      extractNotes_def trackNotes_def mkNote_def demoRaw_def demoNote_def enumerate_eq_zip
      melodyOf_def higher_def harmonyOf_def inGroup_def epsilon_def)

lemma gateState_touch: "getTouchedNote gateState = Some (demoNote 1 64 1.5 0.1)"
  by (simp add: getTouchedNote_def gateState_def gateLoaded_def initialState_def touches_def
      demoNote_def key60_def key64_def timeDiff_def lookBehind_def lookAhead_def noteBottom_def
      noteTop_def noteY_def noteHeight_def pianoTopY_def pixelsPerSecond_def hitZoneY_def
      hitZoneTolerance_def keyX_def noteWidth_def WHITE_KEY_WIDTH_def BLACK_KEY_WIDTH_def)

text \<open>
  C4, witness: a loaded score with two unplayed melody notes 0.04 s apart and one finger
  on the first; one run of the gate marks both played, raises the touched count from 0
  to 2 and triggers both sounds.
\<close>

theorem gate_hit_plays_simultaneous_witness:
  "loadMIDI [''Kiss The Rain.mid'' \<mapsto> gateFile] ''Kiss The Rain.mid'' initialState = Some gateLoaded \<and>
   melodyNotes gateState = melodyNotes gateLoaded \<and>
   getTouchedNote gateState = Some (demoNote 1 64 1.5 0.1) \<and> isPlaying gateState \<and>
   playedMelodyIds gateState = {} \<and> touchedMelodyCount gateState = 0 \<and>
   simultaneousNotes gateState (demoNote 1 64 1.5 0.1) =
     [demoNote 1 64 1.5 0.1, demoNote 2 60 1.54 0.1] \<and>
   playedMelodyIds (handleMelodyGate gateState) = {(0, 1), (0, 2)} \<and>
   touchedMelodyCount (handleMelodyGate gateState) = 2 \<and>
   triggered (handleMelodyGate gateState) =
     [soundOf (demoNote 1 64 1.5 0.1), soundOf (demoNote 2 60 1.54 0.1)]"
proof -
  let ?a = "demoNote 1 64 1.5 0.1"
  let ?b = "demoNote 2 60 1.54 0.1"
  have f: "melodyNotes gateState = [?a, ?b]"
    "playedMelodyIds gateState = {}" "touchedMelodyCount gateState = 0"
    "triggered gateState = []" "isPlaying gateState = True"
    by (simp_all add: gateState_def gateLoaded_def initialState_def)
  have m: "melodyNotes gateState = melodyNotes gateLoaded"
    by (simp add: gateState_def)
  have p: "isPlaying gateState \<or> gatedPause gateState" by (simp add: f)
  note t = gate_hit_plays_simultaneous[OF gateState_touch p]
  from t have "simultaneousNotes gateState ?a =
      filter (\<lambda>n. nid n \<notin> playedMelodyIds gateState \<and> \<bar>time n - time ?a\<bar> \<le> 0.05)
             (melodyNotes gateState)"
    by blast
  then have sim: "simultaneousNotes gateState ?a = [?a, ?b]"
    by (simp add: f demoNote_def)
  from t have "playedMelodyIds (handleMelodyGate gateState) =
      playedMelodyIds gateState \<union> set (map nid (simultaneousNotes gateState ?a))"
    by blast
  then have pl: "playedMelodyIds (handleMelodyGate gateState) = {(0, 1), (0, 2)}"
    by (simp only: sim f) (simp add: demoNote_def insert_commute)
  from t have "touchedMelodyCount (handleMelodyGate gateState) =
      touchedMelodyCount gateState + length (simultaneousNotes gateState ?a)"
    by blast
  then have tc: "touchedMelodyCount (handleMelodyGate gateState) = 2"
    by (simp only: sim f) simp
  from t have "triggered (handleMelodyGate gateState) =
      triggered gateState @ map soundOf (simultaneousNotes gateState ?a)"
    by blast
  then have tr: "triggered (handleMelodyGate gateState) = [soundOf ?a, soundOf ?b]"
    by (simp only: sim f) simp
  from gate_load m gateState_touch f(5) f(2) f(3) sim pl tc tr show ?thesis by simp
qed

section \<open>The animation tick\<close>

lemma autoMark_eq:
  "autoMark st n =
     st\<lparr> playedMelodyIds := playedMelodyIds st \<union> (if time n < currentTime st - 0.1 then {nid n} else {}) \<rparr>"
  by (auto simp: autoMark_def insert_absorb)

lemma foldl_autoMark:
  "foldl autoMark st ns =
     st\<lparr> playedMelodyIds :=
           playedMelodyIds st \<union> set (map nid (filter (\<lambda>n. time n < currentTime st - 0.1) ns)) \<rparr>"
proof (induction ns arbitrary: st)
  case Nil
  show ?case by simp
next
  case (Cons n ns)
  have "foldl autoMark st (n # ns) = foldl autoMark (autoMark st n) ns" by simp
  also have "\<dots> = (autoMark st n)\<lparr> playedMelodyIds :=
      playedMelodyIds (autoMark st n) \<union>
      set (map nid (filter (\<lambda>m. time m < currentTime (autoMark st n) - 0.1) ns)) \<rparr>"
    by (rule Cons.IH)
  also have "\<dots> = st\<lparr> playedMelodyIds :=
      playedMelodyIds st \<union> set (map nid (filter (\<lambda>m. time m < currentTime st - 0.1) (n # ns))) \<rparr>"
    by (simp add: autoMark_eq Un_assoc)
  finally show ?case .
qed

lemma markSkipped_eq:
  "markSkipped st n =
     st\<lparr> playedMelodyIds := playedMelodyIds st \<union> (if time n < currentTime st - 0.1 then {nid n} else {}) \<rparr>"
  by (auto simp: markSkipped_def)

lemma foldl_markSkipped:
  "foldl markSkipped st ns =
     st\<lparr> playedMelodyIds :=
           playedMelodyIds st \<union> set (map nid (filter (\<lambda>n. time n < currentTime st - 0.1) ns)) \<rparr>"
proof (induction ns arbitrary: st)
  case Nil
  show ?case by simp
next
  case (Cons n ns)
  have "foldl markSkipped st (n # ns) = foldl markSkipped (markSkipped st n) ns" by simp
  also have "\<dots> = (markSkipped st n)\<lparr> playedMelodyIds :=
      playedMelodyIds (markSkipped st n) \<union>
      set (map nid (filter (\<lambda>m. time m < currentTime (markSkipped st n) - 0.1) ns)) \<rparr>"
    by (rule Cons.IH)
  also have "\<dots> = st\<lparr> playedMelodyIds :=
      playedMelodyIds st \<union> set (map nid (filter (\<lambda>m. time m < currentTime st - 0.1) (n # ns))) \<rparr>"
    by (simp add: markSkipped_eq Un_assoc)
  finally show ?case .
qed

lemma handleMelodyGate_frame:
  "currentTime (handleMelodyGate st) = currentTime st \<and>
   melodyNotes (handleMelodyGate st) = melodyNotes st \<and>
   playedMelodyIds st \<subseteq> playedMelodyIds (handleMelodyGate st)"
  using foldl_playMelodyNote
  by (auto simp: handleMelodyGate_def startPlayback_def foldl_playMelodyNote split: option.splits)

lemma gateTick_frame:
  "currentTime (gateTick st) = currentTime st \<and>
   melodyNotes (gateTick st) = melodyNotes st \<and>
   playedMelodyIds st \<subseteq> playedMelodyIds (gateTick st)"
  using handleMelodyGate_frame[of st] by (simp add: gateTick_def)

lemma gateTick_no_touch: "getTouchedNote st = None \<Longrightarrow> gateTick st = st"
  by (simp add: gateTick_def handleMelodyGate_def)

text \<open>
  C5, as amended. On every tick while playing on which the transport has not reached the
  end of the song (\<^verbatim>\<open>currentTime < duration\<close>), each melody note whose start time is
  below \<^verbatim>\<open>currentTime - 0.1\<close> and whose id is not yet played is added to the played ids,
  and this auto-mark leaves the touched count as it was; the gate that follows in the
  same tick only adds ids, and changes the touched count only on a hit.
\<close>

theorem tick_auto_mark:
  assumes "isPlaying st" "transportSeconds st < songDuration st"
  shows "animate st = gateTick (foldl autoMark (st\<lparr> currentTime := transportSeconds st \<rparr>) (melodyNotes st)) \<and>
         playedMelodyIds (foldl autoMark (st\<lparr> currentTime := transportSeconds st \<rparr>) (melodyNotes st)) =
           playedMelodyIds st \<union>
           set (map nid (filter (\<lambda>n. time n < transportSeconds st - 0.1) (melodyNotes st))) \<and>
         touchedMelodyCount (foldl autoMark (st\<lparr> currentTime := transportSeconds st \<rparr>) (melodyNotes st)) =
           touchedMelodyCount st \<and>
         currentTime (animate st) = transportSeconds st \<and>
         set (map nid (filter (\<lambda>n. time n < currentTime (animate st) - 0.1) (melodyNotes st)))
           \<subseteq> playedMelodyIds (animate st) \<and>
         (getTouchedNote (foldl autoMark (st\<lparr> currentTime := transportSeconds st \<rparr>) (melodyNotes st)) = None
            \<longrightarrow> touchedMelodyCount (animate st) = touchedMelodyCount st)"
proof -
  let ?s = "foldl autoMark (st\<lparr> currentTime := transportSeconds st \<rparr>) (melodyNotes st)"
  have a: "animate st = gateTick ?s" using assms by (simp add: animate_def Let_def)
  have p: "playedMelodyIds ?s = playedMelodyIds st \<union>
           set (map nid (filter (\<lambda>n. time n < transportSeconds st - 0.1) (melodyNotes st)))"
    and t: "touchedMelodyCount ?s = touchedMelodyCount st"
    and c: "currentTime ?s = transportSeconds st"
    by (simp_all add: foldl_autoMark)
  have c': "currentTime (animate st) = transportSeconds st"
    using gateTick_frame[of ?s] a c by simp
  have sub: "set (map nid (filter (\<lambda>n. time n < currentTime (animate st) - 0.1) (melodyNotes st)))
           \<subseteq> playedMelodyIds (animate st)"
    using gateTick_frame[of ?s] a p c' by auto
  have nt: "getTouchedNote ?s = None \<longrightarrow> touchedMelodyCount (animate st) = touchedMelodyCount st"
    using a t by (auto simp: gateTick_no_touch)
  from a p t c' sub nt show ?thesis by blast
qed

text \<open>
  C5, witness: a tick at 1.5 s in the demo song with no hand marks the melody note of 1 s
  and leaves the touched count at 0.
\<close>

theorem tick_auto_mark_witness:
  "isPlaying tickState \<and> transportSeconds tickState < songDuration tickState \<and>
   playedMelodyIds tickState = {} \<and>
   playedMelodyIds (foldl autoMark (tickState\<lparr> currentTime := transportSeconds tickState \<rparr>)
                      (melodyNotes tickState)) = {(0, 1)} \<and>
   touchedMelodyCount (animate tickState) = 0 \<and>
   currentTime (animate tickState) = 1.5"
proof -
  let ?s = "foldl autoMark (tickState\<lparr> currentTime := transportSeconds tickState \<rparr>)
                      (melodyNotes tickState)"
  have f: "isPlaying tickState" "transportSeconds tickState = 1.5" "songDuration tickState = 3"
    "playedMelodyIds tickState = {}" "touchedMelodyCount tickState = 0"
    "melodyNotes tickState = [demoNote 1 64 1 0.5, demoNote 2 62 2 0.5]"
    by (simp_all add: tickState_def demoLoaded_def initialState_def)
  have lt: "transportSeconds tickState < songDuration tickState" by (simp add: f)
  have g: "getTouchedNote ?s = None"
    by (subst foldl_autoMark) (simp add: getTouchedNote_def tickState_def demoLoaded_def initialState_def)
  note t = tick_auto_mark[OF f(1) lt]
  from t have p: "playedMelodyIds ?s = playedMelodyIds tickState \<union>
      set (map nid (filter (\<lambda>n. time n < transportSeconds tickState - 0.1) (melodyNotes tickState)))"
    by blast
  have p': "playedMelodyIds ?s = {(0, 1)}" by (simp only: p) (simp add: f demoNote_def)
  from t g have "touchedMelodyCount (animate tickState) = touchedMelodyCount tickState" by blast
  then have tm: "touchedMelodyCount (animate tickState) = 0" by (simp add: f)
  from t have "currentTime (animate tickState) = transportSeconds tickState" by blast
  then have c: "currentTime (animate tickState) = 1.5" by (simp add: f)
  from f(1) lt f(4) p' tm c show ?thesis by blast
qed

text \<open>
  C5, counterexample to the claim as stated: the controller is playing, the transport
  reads 3.02 s in a song of 3 s, and the unplayed melody note of 2 s is more than 0.1 s
  in the past; the tick ends the song and returns before the auto-mark, so the note's id
  is not added.
\<close>

theorem final_tick_skips_auto_mark:
  "isPlaying endState \<and>
   demoNote 2 62 2 0.5 \<in> set (melodyNotes endState) \<and>
   nid (demoNote 2 62 2 0.5) \<notin> playedMelodyIds endState \<and>
   time (demoNote 2 62 2 0.5) < transportSeconds endState - 0.1 \<and>
   time (demoNote 2 62 2 0.5) < currentTime (animate endState) - 0.1 \<and>
   nid (demoNote 2 62 2 0.5) \<notin> playedMelodyIds (animate endState)"
  by (simp add: endState_def demoLoaded_def initialState_def demoNote_def animate_def
      showEndScreen_def pausePlayback_def Let_def)

section \<open>The end of the song\<close>

lemma animate_at_end:
  assumes "isPlaying st" "songDuration st \<le> transportSeconds st"
  shows "isPlaying (animate st) = False"
    and "currentTime (animate st) = transportSeconds st"
    and "finalScore (animate st) =
           (if melodyNotes st = [] then 0
            else real (touchedMelodyCount st) / real (length (melodyNotes st)) * 100)"
    and "playedMelodyIds (animate st) = playedMelodyIds st"
    and "touchedMelodyCount (animate st) = touchedMelodyCount st"
  using assms by (simp_all add: animate_def showEndScreen_def pausePlayback_def Let_def)

text \<open>
  C6, the code at the failing input. The controller is playing and the transport reads
  3.02 s in a song of 3 s: the tick stops playback and the final score is
  \<open>1 / 2 * 100 = 50\<close>, but \<^verbatim>\<open>currentTime\<close> ends at 3.02, not at the duration:
  \<^verbatim>\<open>pausePlayback\<close> assigns \<^verbatim>\<open>Tone.Transport.seconds\<close> over the clamped value.
\<close>

theorem clamp_overwritten_at_end:
  "isPlaying endState \<and> songDuration endState = 3 \<and> transportSeconds endState = 3.02 \<and>
   currentTime (animate endState) = 3.02 \<and>
   currentTime (animate endState) \<noteq> songDuration (animate endState) \<and>
   isPlaying (animate endState) = False \<and>
   finalScore (animate endState) = 50"
  by (simp add: endState_def demoLoaded_def initialState_def demoNote_def animate_def
      showEndScreen_def pausePlayback_def Let_def)

section \<open>Harmony scheduling\<close>

lemma scheduleNotes_offsets:
  "map fst (scheduled (scheduleNotes st)) =
     map time (filter (\<lambda>n. time n \<ge> currentTime st) (harmonyNotes st))"
  "map fst (scheduled (scheduleNotes_audio st)) =
     map time (filter (\<lambda>n. time n \<ge> currentTime st) (harmonyNotes st))"
  by (simp_all add: scheduleNotes_def scheduleNotes_audio_def comp_def)

lemma scheduleNotes_audio_floor:
  "e \<in> set (scheduled (scheduleNotes_audio st)) \<Longrightarrow> snd_duration (snd e) \<ge> 0.1"
  by (auto simp: scheduleNotes_audio_def safeSoundOf_def safeDuration_def)

text \<open>
  C7, the code at the failing input. At the end of the countdown with \<^verbatim>\<open>currentTime = 1\<close>
  and harmony notes at 2 s (duration 0.05 s) and 0.5 s, \<^verbatim>\<open>scheduleNotes\<close> of \<^verbatim>\<open>script.js\<close>
  schedules the note of 2 s only, at transport time 2, with its duration of 0.05 s;
  \<^verbatim>\<open>scheduleNotes\<close> of \<^verbatim>\<open>js/audio.js\<close> schedules it with 0.1 s.
\<close>

theorem script_schedule_keeps_short_duration:
  "harmonyNotes shortState = [demoNote 0 48 2 0.05, demoNote 1 50 0.5 0.3] \<and>
   isPlaying (countdownDone shortState) \<and> currentTime (countdownDone shortState) = 1 \<and>
   scheduled (countdownDone shortState) =
     [(2, \<lparr> snd_midi = 48, snd_duration = 0.05, snd_velocity = 0.8 \<rparr>)] \<and>
   scheduled (scheduleNotes_audio shortState) =
     [(2, \<lparr> snd_midi = 48, snd_duration = 0.1, snd_velocity = 0.8 \<rparr>)]"
  by (simp add: shortState_def initialState_def demoNote_def countdownDone_def scheduleNotes_def
      scheduleNotes_audio_def soundOf_def safeSoundOf_def safeDuration_def)

section \<open>Speed change\<close>

lemma map_snd_enumerate_fun: "map (\<lambda>x. g (snd x)) (enumerate i xs) = map g xs"
  by (induction xs arbitrary: i) simp_all

lemma map_time_trackNotes:
  "map time (trackNotes k p) = map (\<lambda>r. raw_time r * k) (snd p)"
  "map duration (trackNotes k p) = map (\<lambda>r. raw_duration r * k) (snd p)"
  by (simp_all add: trackNotes_def mkNote_def comp_def
      map_snd_enumerate_fun[of "\<lambda>r. raw_time r * k"] map_snd_enumerate_fun[of "\<lambda>r. raw_duration r * k"])

lemma extractNotes_timing:
  "map time (extractNotes m k) = map (\<lambda>r. raw_time r * k) (concat (tracks m))"
  "map duration (extractNotes m k) = map (\<lambda>r. raw_duration r * k) (concat (tracks m))"
  by (simp_all add: extractNotes_def map_concat comp_def map_time_trackNotes
      map_snd_enumerate_fun[of "map (\<lambda>r. raw_time r * k)"]
      map_snd_enumerate_fun[of "map (\<lambda>r. raw_duration r * k)"])

lemma loadMIDI_result:
  assumes "fs f = Some m" "currentSpeed st \<noteq> 0"
  shows "\<exists>st'. loadMIDI fs f st = Some st' \<and>
           notes st' = sort_key time (extractNotes m (1 / currentSpeed st)) \<and>
           melodyNotes st' = map melodyOf (splitGroups (notes st')) \<and>
           harmonyNotes st' = concat (map harmonyOf (splitGroups (notes st'))) \<and>
           songDuration st' = midi_duration m * (1 / currentSpeed st) \<and>
           currentSong st' = currentSong st \<and> currentSpeed st' = currentSpeed st \<and>
           isPlaying st' = isPlaying st"
  using assms by (simp add: loadMIDI_def Let_def)

lemma speedChange_result:
  assumes "fs (currentSong st) = Some m" "s \<noteq> 0"
  shows "notes (speedChange fs s st) = sort_key time (extractNotes m (1 / s)) \<and>
         melodyNotes (speedChange fs s st) = map melodyOf (splitGroups (notes (speedChange fs s st))) \<and>
         harmonyNotes (speedChange fs s st) = concat (map harmonyOf (splitGroups (notes (speedChange fs s st)))) \<and>
         songDuration (speedChange fs s st) = midi_duration m * (1 / s) \<and>
         currentSong (speedChange fs s st) = currentSong st"
proof -
  obtain st' where l: "loadMIDI fs (currentSong st) (st\<lparr>currentSpeed := s\<rparr>) = Some st'"
    and r: "notes st' = sort_key time (extractNotes m (1 / s))"
      "melodyNotes st' = map melodyOf (splitGroups (notes st'))"
      "harmonyNotes st' = concat (map harmonyOf (splitGroups (notes st')))"
      "songDuration st' = midi_duration m * (1 / s)"
      "currentSong st' = currentSong st"
    using loadMIDI_result[of fs "currentSong st" m "st\<lparr>currentSpeed := s\<rparr>"] assms by auto
  show ?thesis using l r
    by (simp add: speedChange_def Let_def resetProgress_def pausePlayback_def startPlayback_def)
qed

text \<open>
  C8. A speed change re-derives the notes from the MIDI file with
  \<^verbatim>\<open>TEMPO_MULTIPLIER = 1 / speed\<close> applied to the start time and to the duration of every
  note. After a change to 0.5 the times are doubled; a change to 1.0 after it gives the
  notes of the file with its own times and durations, and the same notes, melody, harmony
  and duration as a load at speed 1.
\<close>

theorem speed_round_trip:
  assumes "fs (currentSong st) = Some m"
  shows "(s \<noteq> 0 \<longrightarrow> notes (speedChange fs s st) = sort_key time (extractNotes m (1 / s))) \<and>
         map time (extractNotes m k) = map (\<lambda>r. raw_time r * k) (concat (tracks m)) \<and>
         map duration (extractNotes m k) = map (\<lambda>r. raw_duration r * k) (concat (tracks m)) \<and>
         notes (speedChange fs (1/2) st) = sort_key time (extractNotes m 2) \<and>
         notes (speedChange fs 1 (speedChange fs (1/2) st)) = sort_key time (extractNotes m 1) \<and>
         map time (extractNotes m 1) = map raw_time (concat (tracks m)) \<and>
         map duration (extractNotes m 1) = map raw_duration (concat (tracks m)) \<and>
         (loadMIDI fs (currentSong st) (st\<lparr> currentSpeed := 1 \<rparr>) = Some st1 \<longrightarrow>
            notes (speedChange fs 1 (speedChange fs (1/2) st)) = notes st1 \<and>
            melodyNotes (speedChange fs 1 (speedChange fs (1/2) st)) = melodyNotes st1 \<and>
            harmonyNotes (speedChange fs 1 (speedChange fs (1/2) st)) = harmonyNotes st1 \<and>
            songDuration (speedChange fs 1 (speedChange fs (1/2) st)) = songDuration st1)"
proof -
  have nz: "(1/2 :: real) \<noteq> 0" "(1 :: real) \<noteq> 0" by simp_all
  note h = speedChange_result[where fs=fs and st=st and m=m and s="1/2", OF assms nz(1)]
  have song: "fs (currentSong (speedChange fs (1/2) st)) = Some m" using h assms by simp
  note b = speedChange_result[where fs=fs and st="speedChange fs (1/2) st" and m=m and s=1, OF song nz(2)]
  have one: "loadMIDI fs (currentSong st) (st\<lparr> currentSpeed := 1 \<rparr>) = Some st1 \<longrightarrow>
            notes (speedChange fs 1 (speedChange fs (1/2) st)) = notes st1 \<and>
            melodyNotes (speedChange fs 1 (speedChange fs (1/2) st)) = melodyNotes st1 \<and>
            harmonyNotes (speedChange fs 1 (speedChange fs (1/2) st)) = harmonyNotes st1 \<and>
            songDuration (speedChange fs 1 (speedChange fs (1/2) st)) = songDuration st1"
  proof
    assume l1: "loadMIDI fs (currentSong st) (st\<lparr> currentSpeed := 1 \<rparr>) = Some st1"
    from loadMIDI_result[where fs=fs and f="currentSong st" and m=m and st="st\<lparr> currentSpeed := 1 \<rparr>", OF assms] l1
    have "notes st1 = sort_key time (extractNotes m 1)"
      "melodyNotes st1 = map melodyOf (splitGroups (notes st1))"
      "harmonyNotes st1 = concat (map harmonyOf (splitGroups (notes st1)))"
      "songDuration st1 = midi_duration m"
      by auto
    with b show "notes (speedChange fs 1 (speedChange fs (1/2) st)) = notes st1 \<and>
            melodyNotes (speedChange fs 1 (speedChange fs (1/2) st)) = melodyNotes st1 \<and>
            harmonyNotes (speedChange fs 1 (speedChange fs (1/2) st)) = harmonyNotes st1 \<and>
            songDuration (speedChange fs 1 (speedChange fs (1/2) st)) = songDuration st1"
      by simp
  qed
  have c1: "s \<noteq> 0 \<longrightarrow> notes (speedChange fs s st) = sort_key time (extractNotes m (1 / s))"
    using speedChange_result[where fs=fs and st=st and m=m and s=s, OF assms] by simp
  have c4: "notes (speedChange fs (1/2) st) = sort_key time (extractNotes m 2)"
    using h by simp
  have c5: "notes (speedChange fs 1 (speedChange fs (1/2) st)) = sort_key time (extractNotes m 1)"
    using b by simp
  have c6: "map time (extractNotes m 1) = map raw_time (concat (tracks m))"
    "map duration (extractNotes m 1) = map raw_duration (concat (tracks m))"
    by (simp_all add: extractNotes_timing)
  show ?thesis
    by (intro conjI) (rule c1 extractNotes_timing c4 c5 c6 one)+
qed

text \<open>
  C8, witness: the demo file has notes at 1, 1 and 2 s; at speed 0.5 they are at 2, 2 and
  4 s, and back at speed 1.0 the notes are those of the first load.
\<close>

theorem speed_round_trip_witness:
  "demoFs (currentSong initialState) = Some demoFile \<and>
   map time (notes (speedChange demoFs (1/2) initialState)) = [2, 2, 4] \<and>
   map time (notes (speedChange demoFs 1 (speedChange demoFs (1/2) initialState))) = [1, 1, 2] \<and>
   notes (speedChange demoFs 1 (speedChange demoFs (1/2) initialState)) = notes demoLoaded"
proof -
  have a: "demoFs (currentSong initialState) = Some demoFile"
    by (simp add: demoFs_def initialState_def)
  have l: "loadMIDI demoFs (currentSong initialState) (initialState\<lparr> currentSpeed := 1 \<rparr>) = Some demoLoaded"
    using demo_load by (simp add: initialState_def)
  have e2: "sort_key time (extractNotes demoFile 2) =
      [demoNote 0 60 2 1, demoNote 1 64 2 1, demoNote 2 62 4 1]"
    by (simp add: demoFile_def extractNotes_def trackNotes_def mkNote_def demoRaw_def demoNote_def
        enumerate_eq_zip)
  have n: "notes demoLoaded = [demoNote 0 60 1 0.5, demoNote 1 64 1 0.5, demoNote 2 62 2 0.5]"
    by (simp add: demoLoaded_def initialState_def)
  note t = speed_round_trip[where fs=demoFs and st=initialState and m=demoFile and s="1/2" and k=1 and ?st1.0=demoLoaded, OF a]
  from t have h: "notes (speedChange demoFs (1/2) initialState) = sort_key time (extractNotes demoFile 2)"
    by blast
  from t l have r: "notes (speedChange demoFs 1 (speedChange demoFs (1/2) initialState)) = notes demoLoaded"
    by blast
  have "map time (notes (speedChange demoFs (1/2) initialState)) = [2, 2, 4]"
    by (simp only: h e2) (simp add: demoNote_def)
  moreover have "map time (notes (speedChange demoFs 1 (speedChange demoFs (1/2) initialState))) = [1, 1, 2]"
    by (simp only: r n) (simp add: demoNote_def)
  ultimately show ?thesis using a r by blast
qed

section \<open>The hit zone\<close>

lemma scanPoints_first:
  assumes "touches st p n" "melodyNotes st = pre @ n # post" "\<forall>m \<in> set pre. \<not> touches st p m"
  shows "scanPoints st (p # ps) = Some n"
proof -
  have "find (touches st p) (pre @ n # post) = Some n"
    using assms(1,3) by (induction pre) auto
  then show ?thesis using assms(2) by simp
qed

lemma scanPoints_some:
  assumes "touches st p n" "n \<in> set (melodyNotes st)" "p \<in> set ps"
  shows "scanPoints st ps \<noteq> None"
  using assms(3)
proof (induction ps)
  case Nil
  then show ?case by simp
next
  case (Cons q qs)
  show ?case
  proof (cases "find (touches st q) (melodyNotes st)")
    case (Some m)
    then show ?thesis by simp
  next
    case None
    then have "q \<noteq> p" using assms(1,2) by (auto simp: find_None_iff)
    with Cons None show ?thesis by simp
  qed
qed

text \<open>
  C9. The band test of the hit detector is inclusive, with a tolerance of 50: an unplayed
  melody note in the time window whose key exists and whose rectangle exactly meets the
  band (its top at \<^verbatim>\<open>hitZoneY + 50\<close>, or its bottom at \<^verbatim>\<open>hitZoneY - 50\<close>) is touched by a
  point inside the rectangle. With such a finger point the detector returns a note, and
  it returns this note when the point is the first finger point and no earlier melody
  note is touched by it (the first match wins).
\<close>

theorem boundary_note_is_touchable:
  assumes "nid n \<notin> playedMelodyIds st"
    and "- lookBehind < timeDiff st n" and "timeDiff st n < lookAhead"
    and "find (\<lambda>k. key_midi k = midi n) (pianoKeys st) = Some keyData"
    and "noteTop st n = hitZoneY st + hitZoneTolerance \<or>
         noteBottom st n = hitZoneY st - hitZoneTolerance"
    and "keyX st keyData - noteWidth keyData / 2 \<le> px p"
    and "px p \<le> keyX st keyData + noteWidth keyData / 2"
    and "noteTop st n \<le> py p" and "py p \<le> noteBottom st n"
  shows "hitZoneTolerance = 50 \<and> touches st p n \<and>
         (p \<in> set (allFingerPoints st) \<and> n \<in> set (melodyNotes st)
            \<longrightarrow> getTouchedNote st \<noteq> None) \<and>
         (allFingerPoints st = p # ps \<and> melodyNotes st = pre @ n # post \<and>
          (\<forall>m \<in> set pre. \<not> touches st p m) \<longrightarrow> getTouchedNote st = Some n)"
proof -
  have h: "noteTop st n \<le> noteBottom st n" using assms(8,9) by simp
  have band: "noteBottom st n \<ge> hitZoneY st - hitZoneTolerance \<and>
              noteTop st n \<le> hitZoneY st + hitZoneTolerance"
    using assms(5) h by (auto simp: hitZoneTolerance_def)
  have t: "touches st p n"
    using assms band by (simp add: touches_def)
  have keys: "pianoKeys st \<noteq> []" using assms(4) by auto
  have some: "getTouchedNote st \<noteq> None"
    if "p \<in> set (allFingerPoints st)" "n \<in> set (melodyNotes st)"
    using that keys scanPoints_some[OF t that(2), of "allFingerPoints st"]
    by (auto simp: getTouchedNote_def)
  have first: "getTouchedNote st = Some n"
    if "allFingerPoints st = p # ps" "melodyNotes st = pre @ n # post" "\<forall>m \<in> set pre. \<not> touches st p m"
    using that keys scanPoints_first[OF t that(2,3), of ps] by (simp add: getTouchedNote_def)
  from t some first show ?thesis by (simp add: hitZoneTolerance_def)
qed

lemma edge_geometry:
  "noteTop edgeState (demoNote 0 60 0.44 0.01) = 614"
  "noteBottom edgeState (demoNote 0 60 0.44 0.01) = 624"
  "hitZoneY edgeState + hitZoneTolerance = 614"
  "timeDiff edgeState (demoNote 0 60 0.44 0.01) = 0.44"
  "keyX edgeState key60 = 115" "noteWidth key60 = 26"
  by (simp_all add: edgeState_def initialState_def demoNote_def key60_def noteTop_def noteBottom_def
      noteY_def noteHeight_def pianoTopY_def pixelsPerSecond_def timeDiff_def hitZoneY_def
      hitZoneTolerance_def keyX_def noteWidth_def WHITE_KEY_WIDTH_def)

text \<open>
  C9, witness: on a canvas of height 940 the band ends at 614; a note whose top is 614
  and a finger at height 620 inside it: the detector returns the note.
\<close>

theorem boundary_note_is_touchable_witness:
  "noteTop edgeState (demoNote 0 60 0.44 0.01) = hitZoneY edgeState + hitZoneTolerance \<and>
   touches edgeState \<lparr> px = 115, py = 620 \<rparr> (demoNote 0 60 0.44 0.01) \<and>
   getTouchedNote edgeState = Some (demoNote 0 60 0.44 0.01)"
proof -
  let ?n = "demoNote 0 60 0.44 0.01"
  let ?p = "\<lparr> px = 115, py = 620 \<rparr>"
  have a1: "nid ?n \<notin> playedMelodyIds edgeState" by (simp add: edgeState_def initialState_def)
  have a2: "- lookBehind < timeDiff edgeState ?n" "timeDiff edgeState ?n < lookAhead"
    using edge_geometry by (simp_all add: lookBehind_def lookAhead_def)
  have a4: "find (\<lambda>k. key_midi k = midi ?n) (pianoKeys edgeState) = Some key60"
    by (simp add: edgeState_def initialState_def demoNote_def key60_def)
  have a5: "noteTop edgeState ?n = hitZoneY edgeState + hitZoneTolerance \<or>
         noteBottom edgeState ?n = hitZoneY edgeState - hitZoneTolerance"
    using edge_geometry by simp
  have a6: "keyX edgeState key60 - noteWidth key60 / 2 \<le> px ?p"
    "px ?p \<le> keyX edgeState key60 + noteWidth key60 / 2"
    "noteTop edgeState ?n \<le> py ?p" "py ?p \<le> noteBottom edgeState ?n"
    using edge_geometry by simp_all
  have s: "allFingerPoints edgeState = ?p # []" "melodyNotes edgeState = [] @ ?n # []"
    by (simp_all add: edgeState_def initialState_def)
  note t = boundary_note_is_touchable[OF a1 a2 a4 a5 a6, of "[]" "[]" "[]"]
  from t have "touches edgeState ?p ?n" by blast
  moreover from t s have "getTouchedNote edgeState = Some ?n" by simp
  moreover have "noteTop edgeState ?n = hitZoneY edgeState + hitZoneTolerance"
    using edge_geometry by simp
  ultimately show ?thesis by blast
qed

section \<open>The score counters\<close>

lemma counted_same:
  assumes "melodyNotes st' = melodyNotes st" "playedMelodyIds st' = playedMelodyIds st"
    "touchedMelodyCount st' = touchedMelodyCount st"
  shows "counted st' = counted st"
  using assms by (simp add: counted_def)

lemma counted_grow:
  assumes "counted st" "finite S"
  shows "counted (st\<lparr> playedMelodyIds := playedMelodyIds st \<union> S \<rparr>)"
proof -
  from assms have "card (playedMelodyIds st) \<le> card (playedMelodyIds st \<union> S)"
    by (intro card_mono) (auto simp: counted_def)
  with assms show ?thesis by (auto simp: counted_def)
qed

lemma counted_reset:
  assumes "distinct (map nid (melodyNotes st))" "finite S"
  shows "counted (st\<lparr> playedMelodyIds := S, touchedMelodyCount := 0 \<rparr>)"
  using assms by (simp add: counted_def)

lemma simultaneousNotes_fresh:
  assumes "distinct (map nid (melodyNotes st))"
  shows "distinct (map nid (simultaneousNotes st t))"
    and "nid ` set (simultaneousNotes st t) \<inter> playedMelodyIds st = {}"
  using assms by (auto simp: simultaneousNotes_def distinct_map_filter)

lemma counted_play:
  assumes "counted st" "distinct (map nid ns)" "nid ` set ns \<inter> playedMelodyIds st = {}"
  shows "counted (foldl playMelodyNote st ns)"
proof -
  let ?st = "foldl playMelodyNote st ns"
  have fin: "finite (playedMelodyIds st)" and le: "touchedMelodyCount st \<le> card (playedMelodyIds st)"
    and d: "distinct (map nid (melodyNotes st))"
    using assms(1) by (simp_all add: counted_def)
  have c: "card (nid ` set ns) = length ns"
    using assms(2) distinct_card[of "map nid ns"] by simp
  have "card (playedMelodyIds st \<union> nid ` set ns) = card (playedMelodyIds st) + length ns"
    using card_Un_disjoint[OF fin _ ] assms(3) c by (simp add: Int_commute)
  then show ?thesis using foldl_playMelodyNote[of st ns] fin le d
    by (simp add: counted_def)
qed

lemma counted_handleMelodyGate: "counted st \<Longrightarrow> counted (handleMelodyGate st)"
proof -
  assume c: "counted st"
  then have d: "distinct (map nid (melodyNotes st))" by (simp add: counted_def)
  have p: "counted (foldl playMelodyNote st (simultaneousNotes st t))" for t
    using counted_play[OF c simultaneousNotes_fresh[OF d]] .
  have s: "counted (startPlayback s') = counted s'" for s'
    by (rule counted_same) (simp_all add: startPlayback_def)
  show ?thesis using c p s by (auto simp: handleMelodyGate_def split: option.splits)
qed

lemma counted_gateTick: "counted st \<Longrightarrow> counted (gateTick st)"
  by (simp add: gateTick_def counted_handleMelodyGate)

lemma counted_pausePlayback: "counted (pausePlayback st) = counted st"
  by (rule counted_same) (simp_all add: pausePlayback_def)

lemma counted_startPlayback: "counted (startPlayback st) = counted st"
  by (rule counted_same) (simp_all add: startPlayback_def)

lemma counted_animate: "counted st \<Longrightarrow> counted (animate st)"
proof -
  assume c: "counted st"
  let ?s1 = "st\<lparr> currentTime := transportSeconds st \<rparr>"
  have c1: "counted ?s1" using c by (simp add: counted_def)
  have "counted (foldl autoMark ?s1 (melodyNotes ?s1))"
    unfolding foldl_autoMark by (rule counted_grow[OF c1]) simp
  then have a: "counted (gateTick (foldl autoMark ?s1 (melodyNotes ?s1)))"
    by (rule counted_gateTick)
  have b: "counted (showEndScreen (pausePlayback (?s1\<lparr> currentTime := songDuration ?s1 \<rparr>)))"
    using c by (simp add: counted_def showEndScreen_def pausePlayback_def)
  show ?thesis using a b counted_gateTick[OF c] by (simp add: animate_def Let_def)
qed

lemma counted_seekTo: "counted st \<Longrightarrow> counted (seekTo t st)"
proof -
  assume c: "counted st"
  let ?s3 = "st\<lparr> currentTime := max 0 (min t (songDuration st)),
                 transportSeconds := max 0 (min t (songDuration st)),
                 playedMelodyIds := {}, touchedMelodyCount := 0 \<rparr>"
  have "counted (foldl markSkipped ?s3 (melodyNotes ?s3))"
    using c by (simp add: foldl_markSkipped counted_def)
  then show ?thesis
    by (simp add: seekTo_def Let_def counted_pausePlayback counted_startPlayback)
qed

lemma loadMIDI_distinct_melody:
  assumes "loadMIDI fs f st = Some st'"
  shows "distinct (map nid (melodyNotes st'))"
  by (rule partition_facts(4)[OF loadMIDI_partition[OF assms] loadMIDI_distinct_ids[OF assms]])

lemma loadMIDI_frame:
  assumes "loadMIDI fs f st = Some st'"
  shows "playedMelodyIds st' = playedMelodyIds st" "touchedMelodyCount st' = touchedMelodyCount st"
  using assms by (auto simp: loadMIDI_def Let_def split: option.splits if_splits)

lemma counted_songChange: "counted st \<Longrightarrow> counted (songChange fs layout song st)"
proof -
  assume c: "counted st"
  define s3 where "s3 = (if isPlaying (st\<lparr>currentSong := song\<rparr>)
                         then pausePlayback (st\<lparr>currentSong := song\<rparr>)
                         else st\<lparr>currentSong := song\<rparr>)\<lparr>pianoKeys := []\<rparr>"
  have c3: "counted s3" using c by (simp add: s3_def counted_def pausePlayback_def)
  have sc: "songChange fs layout song st =
      (case loadMIDI fs song s3 of None \<Rightarrow> s3
       | Some st4 \<Rightarrow> resetProgress (createPianoKeyboard layout st4))"
    unfolding songChange_def Let_def s3_def by (rule refl)
  show ?thesis
  proof (cases "loadMIDI fs song s3")
    case None
    then show ?thesis using sc c3 by simp
  next
    case (Some st4)
    have "counted (resetProgress (createPianoKeyboard layout st4))"
      using loadMIDI_distinct_melody[OF Some]
      by (simp add: counted_def resetProgress_def createPianoKeyboard_def Let_def)
    then show ?thesis using sc Some by simp
  qed
qed

lemma counted_speedChange: "counted st \<Longrightarrow> counted (speedChange fs speed st)"
proof -
  assume c: "counted st"
  define s1 where "s1 = st\<lparr>currentSpeed := speed\<rparr>"
  have c1: "counted s1" using c by (simp add: s1_def counted_def)
  have sc: "speedChange fs speed st =
      (case loadMIDI fs (currentSong s1) s1 of None \<Rightarrow> s1
       | Some st2 \<Rightarrow> if isPlaying (resetProgress st2)
                       then startPlayback (pausePlayback (resetProgress st2))
                       else resetProgress st2)"
    unfolding speedChange_def Let_def s1_def by simp
  show ?thesis
  proof (cases "loadMIDI fs (currentSong s1) s1")
    case None
    then show ?thesis using sc c1 by simp
  next
    case (Some st2)
    have "counted (resetProgress st2)"
      using loadMIDI_distinct_melody[OF Some] by (simp add: counted_def resetProgress_def)
    then show ?thesis using sc Some
      by (simp add: counted_pausePlayback counted_startPlayback)
  qed
qed

lemma counted_init: "counted st \<Longrightarrow> counted (init fs layout st)"
proof -
  assume c: "counted st"
  show ?thesis
  proof (cases "loadMIDI fs (currentSong st) st")
    case None
    then show ?thesis using c by (simp add: init_def)
  next
    case (Some st1)
    have "counted (createPianoKeyboard layout st1)"
      using loadMIDI_distinct_melody[OF Some] loadMIDI_frame[OF Some] c
      by (simp add: counted_def createPianoKeyboard_def Let_def)
    then show ?thesis using Some by (simp add: init_def)
  qed
qed

lemma counted_others:
  assumes "counted st"
  shows "counted (togglePlayback st)" "counted (countdownDone st)" "counted (instrumentChange st)"
  using assms
  by (simp_all add: counted_def togglePlayback_def countdownDone_def instrumentChange_def
      startPlayback_def pausePlayback_def scheduleNotes_def Let_def)

text \<open>
  C10. The touched count never exceeds the number of played ids: this holds of the
  initial globals and is kept, together with the distinctness of the melody ids, by every
  event of a session (the first load, the tick with its auto-mark and gate, seek, song
  change, speed change, play and pause, the end of a countdown, instrument change, a
  frame of hand points, the clock, a resize). The gate credits only melody notes whose
  ids are not yet played, and those ids are distinct, so each credit adds a new id.
\<close>

theorem score_counters_invariant:
  "counted initialState \<and>
   (counted st \<longrightarrow>
      counted (step fs layout e st) \<and>
      touchedMelodyCount (step fs layout e st) \<le> card (playedMelodyIds (step fs layout e st)))"
proof -
  have i: "counted initialState" by (simp add: counted_def initialState_def)
  have "counted (step fs layout e st)" if c: "counted st"
  proof (cases e)
    case Init
    then show ?thesis using counted_init[OF c] by (simp add: step_def)
  next
    case Animate
    then show ?thesis using counted_animate[OF c] by (simp add: step_def)
  next
    case (SeekTo t)
    then show ?thesis using counted_seekTo[OF c] by (simp add: step_def)
  next
    case (SongChange song)
    then show ?thesis using counted_songChange[OF c] by (simp add: step_def)
  next
    case (SpeedChange speed)
    then show ?thesis using counted_speedChange[OF c] by (simp add: step_def)
  next
    case TogglePlayback
    then show ?thesis using counted_others[OF c] by (simp add: step_def)
  next
    case CountdownDone
    then show ?thesis using counted_others[OF c] by (simp add: step_def)
  next
    case InstrumentChange
    then show ?thesis using counted_others[OF c] by (simp add: step_def)
  next
    case (HandsResults pts)
    then show ?thesis using c by (simp add: step_def counted_def)
  next
    case (TransportAdvance dt)
    then show ?thesis using c by (simp add: step_def counted_def)
  next
    case (Resize h l)
    then show ?thesis using c by (simp add: step_def counted_def)
  qed
  with i show ?thesis by (auto simp: counted_def)
qed

text \<open>C10, witness: the invariant holds of the gate example and after a tick from it.\<close>

theorem score_counters_invariant_witness:
  "counted gateState \<and> counted (step demoFs (\<lambda>k. (0, 30)) Animate gateState) \<and>
   touchedMelodyCount (step demoFs (\<lambda>k. (0, 30)) Animate gateState)
     \<le> card (playedMelodyIds (step demoFs (\<lambda>k. (0, 30)) Animate gateState))"
proof -
  have c: "counted gateState"
    by (simp add: counted_def gateState_def gateLoaded_def initialState_def demoNote_def)
  from score_counters_invariant[of gateState demoFs "\<lambda>k. (0, 30)" Animate] c
  show ?thesis by blast
qed

end
